theory Spec2Isabelle
  imports Complex_Main "HOL-Library.AList"
begin

section \<open>PEGCA: energy-efficient VM consolidation simulator (pegca\_sim.py)\<close>

text \<open>
  A shallow embedding of \<^verbatim>\<open>pegca_sim.py\<close>.
  \<^item> Python floats are modelled as real numbers with exact arithmetic; \<^verbatim>\<open>round(x, n)\<close> is
    rounding of the exact value to \<open>n\<close> decimals, ties to even.
  \<^item> Python ints are \<open>int\<close>; \<^verbatim>\<open>%\<close> is \<open>mod\<close> (both take the sign of the divisor).
  \<^item> A \<^verbatim>\<open>dict\<close> is an association list with distinct keys in insertion order:
    \<open>AList.update\<close> is \<^verbatim>\<open>d[k] = v\<close>, \<open>map_of\<close> the lookup, \<open>AList.map_entry\<close> an in-place
    \<^verbatim>\<open>d[k] += x\<close> on a key that is present.
  \<^item> The module-level random generator is a parameter: \<open>gen seed k\<close> is the value of the
    \<open>k\<close>-th call of \<^verbatim>\<open>random.random()\<close> after \<^verbatim>\<open>random.seed(seed)\<close>. The number of draws
    consumed so far is threaded through the state.
  \<^item> Mutation is explicit state passing. \<^verbatim>\<open>simulate\<close> assigns to \<^verbatim>\<open>cfg.target_util\<close> of the
    object it was given, so the model returns the configuration together with the summary.
  \<^item> Exceptions are values of type \<open>error\<close>.
\<close>

subsection \<open>Errors\<close>

datatype error = ZeroDivisionError | IndexError | KeyError | StatisticsError

definition bind_r :: "error + 'a \<Rightarrow> ('a \<Rightarrow> error + 'b) \<Rightarrow> error + 'b" where
  "bind_r m f = (case m of Inl e \<Rightarrow> Inl e | Inr x \<Rightarrow> f x)"

fun map_r :: "('a \<Rightarrow> error + 'b) \<Rightarrow> 'a list \<Rightarrow> error + 'b list" where
  "map_r f [] = Inr []"
| "map_r f (x # xs) = bind_r (f x) (\<lambda>y. bind_r (map_r f xs) (\<lambda>ys. Inr (y # ys)))"

subsection \<open>Config, Host, VM\<close>

record Config =
  alpha :: real
  low_usage_threshold :: real
  target_util :: real
  hi_watermark :: real
  dt_hours :: real
  cycles :: int
  n_hosts :: int
  n_vms :: int
  seed :: int

record Host =
  h_id :: int
  cpu_cap :: real
  mem_cap :: real
  status :: string
  power_idle_watts :: real
  power_peak_watts :: real

text \<open>\<^verbatim>\<open>Host(hid=i)\<close>: every other constructor argument takes its default.\<close>

definition Host_init :: "int \<Rightarrow> Host" where
  "Host_init i = \<lparr>h_id = i, cpu_cap = 100, mem_cap = 100, status = ''ON'',
                  power_idle_watts = 120, power_peak_watts = 300\<rparr>"

record VM =
  v_id :: int
  host_id :: int
  cpu_use_hist :: "real list"
  mem_use_hist :: "real list"
  pred_cpu :: real
  pred_mem :: real

definition VM_init :: "int \<Rightarrow> int \<Rightarrow> real \<Rightarrow> real \<Rightarrow> VM" where
  "VM_init vid hid init_cpu init_mem =
     \<lparr>v_id = vid, host_id = hid, cpu_use_hist = [init_cpu, init_cpu],
      mem_use_hist = [init_mem, init_mem], pred_cpu = init_cpu, pred_mem = init_mem\<rparr>"

type_synonym 'v dict = "(int \<times> 'v) list"

subsection \<open>Utility functions\<close>

definition bounded :: "real \<Rightarrow> real \<Rightarrow> real \<Rightarrow> real" where
  "bounded x lo hi = max lo (min hi x)"

text \<open>\<^verbatim>\<open>random.uniform(a, b)\<close> is \<^verbatim>\<open>a + (b - a) * random()\<close>; \<open>u\<close> is the draw.\<close>

definition uniform :: "real \<Rightarrow> real \<Rightarrow> real \<Rightarrow> real" where
  "uniform u a b = a + (b - a) * u"

text \<open>\<^verbatim>\<open>synth_drift(t)\<close> consumes one draw \<open>u\<close>; \<open>sin\<close> and \<open>pi\<close> are those of the reals.\<close>

definition synth_drift :: "real \<Rightarrow> int \<Rightarrow> real" where
  "synth_drift u t = 10 * sin (2 * pi * real_of_int (t mod 24) / 24) + uniform u (- 8) 8"

text \<open>\<^verbatim>\<open>hist[-1]\<close> and \<^verbatim>\<open>hist[-2]\<close> raise IndexError on a list that is too short.\<close>

definition predict_ema :: "VM \<Rightarrow> real \<Rightarrow> error + VM" where
  "predict_ema vm a =
     (let c = cpu_use_hist vm; m = mem_use_hist vm in
      if length c < 2 then Inl IndexError
      else if length m < 2 then Inl IndexError
      else Inr (vm\<lparr>pred_cpu := a * last c + (1 - a) * (c ! (length c - 2)),
                   pred_mem := a * last m + (1 - a) * (m ! (length m - 2))\<rparr>))"

definition active_hosts :: "Host list \<Rightarrow> Host list" where
  "active_hosts hs = filter (\<lambda>h. status h = ''ON'') hs"

definition off_hosts :: "Host list \<Rightarrow> Host list" where
  "off_hosts hs = filter (\<lambda>h. status h = ''OFF'') hs"

text \<open>
  The dictionary comprehensions \<^verbatim>\<open>{h.id: f(h) for h in hosts}\<close> and
  \<^verbatim>\<open>{h.id: f(h) for h in hosts if h.status == "ON"}\<close>: a later host with the same id
  overwrites the value and keeps the position of the key.
\<close>

definition dict_of :: "(Host \<Rightarrow> 'v) \<Rightarrow> Host list \<Rightarrow> 'v dict" where
  "dict_of f hs = fold (\<lambda>h. AList.update (h_id h) (f h)) hs []"

definition on_dict :: "(Host \<Rightarrow> 'v) \<Rightarrow> Host list \<Rightarrow> 'v dict" where
  "on_dict f hs = dict_of f (filter (\<lambda>h. status h = ''ON'') hs)"

text \<open>
  The loop body of \<^verbatim>\<open>loads_predicted\<close>: when \<^verbatim>\<open>hid in cpu\<close>, both tallies of the host grow.
\<close>

definition add_load :: "VM \<Rightarrow> real dict \<times> real dict \<Rightarrow> real dict \<times> real dict" where
  "add_load vm lm =
     (case lm of (cpu, mem) \<Rightarrow>
        if map_of cpu (host_id vm) \<noteq> None
        then (AList.map_entry (host_id vm) (\<lambda>x. x + pred_cpu vm) cpu,
              AList.map_entry (host_id vm) (\<lambda>x. x + pred_mem vm) mem)
        else (cpu, mem))"

definition loads_predicted :: "Host list \<Rightarrow> VM list \<Rightarrow> real dict \<times> real dict" where
  "loads_predicted hs vs = fold add_load vs (on_dict (\<lambda>h. 0) hs, on_dict (\<lambda>h. 0) hs)"

text \<open>
  The \<^verbatim>\<open>and\<close> of \<^verbatim>\<open>first_fit\<close> short-circuits: \<^verbatim>\<open>mem_loads[h.id]\<close> is read only when the
  CPU test passed. Either lookup raises KeyError on a missing key.
\<close>

fun first_fit :: "VM \<Rightarrow> Host list \<Rightarrow> real dict \<Rightarrow> real dict \<Rightarrow> real \<Rightarrow> error + Host option" where
  "first_fit vm [] cpu_loads mem_loads tu = Inr None"
| "first_fit vm (h # hs) cpu_loads mem_loads tu =
     (case map_of cpu_loads (h_id h) of
        None \<Rightarrow> Inl KeyError
      | Some c \<Rightarrow>
          if c + pred_cpu vm \<le> cpu_cap h * tu then
            (case map_of mem_loads (h_id h) of
               None \<Rightarrow> Inl KeyError
             | Some m \<Rightarrow>
                 if m + pred_mem vm \<le> mem_cap h * tu then Inr (Some h)
                 else first_fit vm hs cpu_loads mem_loads tu)
          else first_fit vm hs cpu_loads mem_loads tu)"

text \<open>
  The loop of \<^verbatim>\<open>any_high_watermark\<close> returns \<^verbatim>\<open>True\<close> at the first entry that passes the
  test; \<^verbatim>\<open>caps.get(hid, 0.0)\<close> gives 0 for a host without an entry.
\<close>

definition any_high_watermark :: "real dict \<Rightarrow> Host list \<Rightarrow> real \<Rightarrow> bool" where
  "any_high_watermark cpu_loads on_hosts hw =
     (let caps = on_dict cpu_cap on_hosts in
      list_ex (\<lambda>(hid, load).
                 let cap = (case map_of caps hid of None \<Rightarrow> 0 | Some c \<Rightarrow> c)
                 in cap > 0 \<and> load > cap * hw) cpu_loads)"

subsection \<open>Library functions used by the summary\<close>

text \<open>\<^verbatim>\<open>round(x, n)\<close> on the exact value: nearest multiple of \<open>10^-n\<close>, ties to even.\<close>

definition round_half_even :: "real \<Rightarrow> int" where
  "round_half_even x =
     (let f = \<lfloor>x\<rfloor>; r = x - of_int f in
      if r < 1 / 2 then f else if r > 1 / 2 then f + 1 else if even f then f else f + 1)"

definition py_round :: "real \<Rightarrow> nat \<Rightarrow> real" where
  "py_round x n = of_int (round_half_even (x * 10 ^ n)) / 10 ^ n"

text \<open>
  \<^verbatim>\<open>statistics.mean\<close> and \<^verbatim>\<open>max\<close>. Both raise on an empty list; \<^verbatim>\<open>simulate\<close> calls them
  under the test \<^verbatim>\<open>if utils\<close> only, and so does the model.
\<close>

definition mean :: "real list \<Rightarrow> real" where
  "mean xs = sum_list xs / real (length xs)"

fun list_max :: "real list \<Rightarrow> real" where
  "list_max [] = 0"
| "list_max [x] = x"
| "list_max (x # y # ys) = max x (list_max (y # ys))"

text \<open>
  \<^verbatim>\<open>statistics.quantiles(data, n=n)\<close> with the default method \<^verbatim>\<open>'exclusive'\<close>: the cut
  points \<open>i = 1 .. n-1\<close> of the sorted data, interpolated between neighbours.
\<close>

definition quantile_cut :: "real list \<Rightarrow> nat \<Rightarrow> nat \<Rightarrow> real" where
  "quantile_cut d n i =
     (let ld = length d; m = ld + 1; j0 = i * m div n;
          j = (if j0 < 1 then 1 else if j0 > ld - 1 then ld - 1 else j0);
          delta = int (i * m) - int (j * n)
      in (d ! (j - 1) * real_of_int (int n - delta) + d ! j * real_of_int delta) / real n)"

definition quantiles :: "real list \<Rightarrow> nat \<Rightarrow> error + real list" where
  "quantiles data n =
     (if n < 1 then Inl StatisticsError
      else if length data < 2 then Inl StatisticsError
      else Inr (map (quantile_cut (sort data) n) [1..<n]))"

subsection \<open>Simulation state\<close>

record Sim =
  hosts :: "Host list"
  vms :: "VM list"
  total_kwh :: real
  total_migrations :: int
  total_breaches :: int
  cfg :: Config
  draws :: nat

text \<open>The VM-creation loop of \<^verbatim>\<open>simulate\<close>; \<open>k\<close> counts the random draws consumed.\<close>

fun init_vms :: "(nat \<Rightarrow> real) \<Rightarrow> Config \<Rightarrow> nat \<Rightarrow> int list \<Rightarrow> error + (VM list \<times> nat)" where
  "init_vms rnd c k [] = Inr ([], k)"
| "init_vms rnd c k (i # is) =
     (if n_hosts c = 0 then Inl ZeroDivisionError
      else
        let hid = i mod n_hosts c;
            init_cpu = uniform (rnd k) 10 60;
            init_mem = bounded (init_cpu * 0.8) 5 80
        in bind_r (init_vms rnd c (Suc k) is)
             (\<lambda>(vs, k'). Inr (VM_init i hid init_cpu init_mem # vs, k')))"

text \<open>Step 1 of a cycle: one drift draw per VM, appended to both histories.\<close>

definition observe :: "real \<Rightarrow> VM \<Rightarrow> error + VM" where
  "observe d vm =
     (if cpu_use_hist vm = [] then Inl IndexError
      else if mem_use_hist vm = [] then Inl IndexError
      else Inr (vm\<lparr>cpu_use_hist := cpu_use_hist vm @ [bounded (last (cpu_use_hist vm) + d) 0 100],
                   mem_use_hist := mem_use_hist vm @ [bounded (last (mem_use_hist vm) + d * 0.8) 0 100]\<rparr>))"

fun update_usage :: "(nat \<Rightarrow> real) \<Rightarrow> int \<Rightarrow> nat \<Rightarrow> VM list \<Rightarrow> error + (VM list \<times> nat)" where
  "update_usage rnd t k [] = Inr ([], k)"
| "update_usage rnd t k (vm # vs) =
     bind_r (observe (synth_drift (rnd k) t) vm)
       (\<lambda>vm'. bind_r (update_usage rnd t (Suc k) vs) (\<lambda>(vs', k'). Inr (vm' # vs', k')))"

text \<open>Step 2: \<^verbatim>\<open>predict_ema\<close> on every VM.\<close>

definition predict_all :: "real \<Rightarrow> VM list \<Rightarrow> error + VM list" where
  "predict_all a vs = map_r (\<lambda>vm. predict_ema vm a) vs"

text \<open>
  Steps 3 and 4: the planner. The loop state is the plan so far and the two running
  tallies; \<open>plan_step\<close> is the loop body for one candidate.
\<close>

type_synonym plan = "(int \<times> int \<times> int) list"

definition plan_step ::
  "real \<Rightarrow> Host list \<Rightarrow> plan \<times> real dict \<times> real dict \<Rightarrow> VM \<Rightarrow> error + (plan \<times> real dict \<times> real dict)" where
  "plan_step tu on st vm =
     (case st of (plan, cpu_loads, mem_loads) \<Rightarrow>
        bind_r (first_fit vm on cpu_loads mem_loads tu)
          (\<lambda>r. case r of
                 None \<Rightarrow> Inr (plan, cpu_loads, mem_loads)
               | Some dst \<Rightarrow>
                   if h_id dst \<noteq> host_id vm
                   then Inr (plan @ [(v_id vm, host_id vm, h_id dst)],
                             AList.map_entry (h_id dst) (\<lambda>x. x + pred_cpu vm) cpu_loads,
                             AList.map_entry (h_id dst) (\<lambda>x. x + pred_mem vm) mem_loads)
                   else Inr (plan, cpu_loads, mem_loads)))"

fun plan_loop ::
  "real \<Rightarrow> Host list \<Rightarrow> VM list \<Rightarrow> plan \<times> real dict \<times> real dict \<Rightarrow> error + (plan \<times> real dict \<times> real dict)" where
  "plan_loop tu on [] st = Inr st"
| "plan_loop tu on (vm # cs) st = bind_r (plan_step tu on st vm) (plan_loop tu on cs)"

text \<open>
  \<^verbatim>\<open>sorted(cands, key=lambda x: x.pred_cpu, reverse=True)\<close> is stable: equal keys keep their
  order, as a stable ascending sort on the negated key does.
\<close>

definition candidates :: "Config \<Rightarrow> VM list \<Rightarrow> VM list" where
  "candidates c vs = sort_key (\<lambda>vm. - pred_cpu vm) (filter (\<lambda>vm. pred_cpu vm \<le> low_usage_threshold c) vs)"

definition planner :: "Config \<Rightarrow> Host list \<Rightarrow> VM list \<Rightarrow> error + (plan \<times> real dict \<times> real dict)" where
  "planner c hs vs =
     (let on = active_hosts hs in
      plan_loop (target_util c) on (candidates c vs) ([], loads_predicted on vs))"

text \<open>
  Step 5: \<^verbatim>\<open>vms[vm_id].host_id = dst\<close>. A negative index counts from the end; an index out of
  range raises IndexError.
\<close>

fun execute :: "plan \<Rightarrow> VM list \<Rightarrow> error + VM list" where
  "execute [] vs = Inr vs"
| "execute ((vm_id, src, dst) # p) vs =
     (let n = int (length vs); j = (if vm_id < 0 then vm_id + n else vm_id) in
      if 0 \<le> j \<and> j < n then execute p (vs[nat j := (vs ! nat j)\<lparr>host_id := dst\<rparr>])
      else Inl IndexError)"

text \<open>
  Step 6. \<^verbatim>\<open>on\<close> holds the host objects that are ON, so \<^verbatim>\<open>h.status = "OFF"\<close> for \<^verbatim>\<open>h in on\<close>
  changes exactly the ON entries of \<^verbatim>\<open>hosts\<close>.
\<close>

definition mark_vm :: "VM \<Rightarrow> bool dict \<Rightarrow> bool dict" where
  "mark_vm vm d = (if map_of d (host_id vm) \<noteq> None then AList.update (host_id vm) True d else d)"

definition has_vm :: "Host list \<Rightarrow> VM list \<Rightarrow> bool dict" where
  "has_vm on vs = fold mark_vm vs (dict_of (\<lambda>h. False) on)"

definition shutdown :: "Host list \<Rightarrow> VM list \<Rightarrow> Host list" where
  "shutdown hs vs =
     (let d = has_vm (active_hosts hs) vs in
      map (\<lambda>h. if status h = ''ON'' \<and> map_of d (h_id h) = Some False
               then h\<lparr>status := ''OFF''\<rparr> else h) hs)"

text \<open>Step 7: the energy credited to one cycle.\<close>

definition cycle_kwh :: "Host list \<Rightarrow> real \<Rightarrow> real" where
  "cycle_kwh hs dt = sum_list (map power_idle_watts (off_hosts hs)) * dt / 1000"

text \<open>Step 8: monitoring and feedback.\<close>

definition breach :: "Config \<Rightarrow> Host list \<Rightarrow> VM list \<Rightarrow> bool" where
  "breach c hs vs =
     (let on = active_hosts hs in
      any_high_watermark (fst (loads_predicted on vs)) on (hi_watermark c))"

definition feedback :: "bool \<Rightarrow> Config \<Rightarrow> Config" where
  "feedback b c =
     (if b then c\<lparr>target_util := max 0.70 (py_round (target_util c - 0.02) 3)\<rparr> else c)"

text \<open>
  One iteration of the main loop for cycle index \<open>t\<close>, steps 1 to 8; \<open>run_cycles\<close> is the loop
  over a list of cycle indices, \<^verbatim>\<open>range(cfg.cycles)\<close> in \<^verbatim>\<open>simulate\<close>.
\<close>

definition cycle :: "(nat \<Rightarrow> real) \<Rightarrow> Sim \<Rightarrow> int \<Rightarrow> error + Sim" where
  "cycle rnd s t =
     bind_r (update_usage rnd t (draws s) (vms s)) (\<lambda>(vs1, k).
     bind_r (predict_all (alpha (cfg s)) vs1) (\<lambda>vs2.
     bind_r (planner (cfg s) (hosts s) vs2) (\<lambda>(plan, cpu_loads, mem_loads).
     bind_r (execute plan vs2) (\<lambda>vs3.
       let hs = shutdown (hosts s) vs3;
           b = breach (cfg s) hs vs3
       in Inr \<lparr>hosts = hs, vms = vs3,
               total_kwh = total_kwh s + cycle_kwh hs (dt_hours (cfg s)),
               total_migrations = total_migrations s + int (length plan),
               total_breaches = (if b then total_breaches s + 1 else total_breaches s),
               cfg = feedback b (cfg s),
               draws = k\<rparr>))))"

fun run_cycles :: "(nat \<Rightarrow> real) \<Rightarrow> Sim \<Rightarrow> int list \<Rightarrow> error + Sim" where
  "run_cycles rnd s [] = Inr s"
| "run_cycles rnd s (t # ts) = bind_r (cycle rnd s t) (\<lambda>s'. run_cycles rnd s' ts)"

subsection \<open>Summary\<close>

record Summary =
  energy_kwh_total :: real
  migrations_total :: int
  hosts_off_final :: int
  util_mean_final :: real
  util_p95_final :: real
  hi_watermark_breaches :: int
  final_target_util :: real

text \<open>\<^verbatim>\<open>[cpu_loads[hid] / caps[hid] for hid in cpu_loads if caps[hid] > 0]\<close>\<close>

fun utils_of :: "real dict \<Rightarrow> real dict \<Rightarrow> error + real list" where
  "utils_of caps [] = Inr []"
| "utils_of caps ((hid, load) # rest) =
     (case map_of caps hid of
        None \<Rightarrow> Inl KeyError
      | Some c \<Rightarrow> bind_r (utils_of caps rest) (\<lambda>us. Inr (if c > 0 then (load / c) # us else us)))"

definition util_p95 :: "real list \<Rightarrow> error + real" where
  "util_p95 utils =
     (if length utils \<ge> 20
      then bind_r (quantiles utils 20) (\<lambda>qs. Inr (py_round (last qs) 4))
      else Inr (if utils \<noteq> [] then list_max utils else 0))"

definition summary :: "Sim \<Rightarrow> error + Summary" where
  "summary s =
     (let on = active_hosts (hosts s);
          cpu_loads = fst (loads_predicted on (vms s));
          caps = dict_of cpu_cap on
      in bind_r (utils_of caps cpu_loads) (\<lambda>utils.
         bind_r (util_p95 utils) (\<lambda>p95.
           Inr \<lparr>energy_kwh_total = py_round (total_kwh s) 3,
                migrations_total = total_migrations s,
                hosts_off_final = int (length (off_hosts (hosts s))),
                util_mean_final = (if utils \<noteq> [] then py_round (mean utils) 4 else 0),
                util_p95_final = p95,
                hi_watermark_breaches = total_breaches s,
                final_target_util = py_round (target_util (cfg s)) 3\<rparr>)))"

subsection \<open>simulate\<close>

text \<open>The state before the first cycle: the hosts, the VMs and the counters at 0.\<close>

definition init_sim :: "(nat \<Rightarrow> real) \<Rightarrow> Config \<Rightarrow> error + Sim" where
  "init_sim rnd c =
     bind_r (init_vms rnd c 0 [0..n_vms c - 1]) (\<lambda>(vs, k).
       Inr \<lparr>hosts = map Host_init [0..n_hosts c - 1], vms = vs, total_kwh = 0,
            total_migrations = 0, total_breaches = 0, cfg = c, draws = k\<rparr>)"

text \<open>
  The result is the returned dictionary together with the configuration object as the
  call leaves it.
\<close>

definition simulate :: "(int \<Rightarrow> nat \<Rightarrow> real) \<Rightarrow> Config \<Rightarrow> error + (Summary \<times> Config)" where
  "simulate gen c =
     (let rnd = gen (seed c) in
      bind_r (init_sim rnd c) (\<lambda>s0.
      bind_r (run_cycles rnd s0 [0..cycles c - 1]) (\<lambda>s.
      bind_r (summary s) (\<lambda>r. Inr (r, cfg s)))))"

subsection \<open>Notions used in the statements\<close>

text \<open>
  The predicted CPU and memory load of host \<open>k\<close>: the sums of \<open>pred_cpu\<close> and \<open>pred_mem\<close> over
  the VMs assigned to it.
\<close>

definition host_load :: "VM list \<Rightarrow> int \<Rightarrow> real" where
  "host_load vs k = sum_list (map pred_cpu (filter (\<lambda>vm. host_id vm = k) vs))"

definition host_load_mem :: "VM list \<Rightarrow> int \<Rightarrow> real" where
  "host_load_mem vs k = sum_list (map pred_mem (filter (\<lambda>vm. host_id vm = k) vs))"

text \<open>
  A move \<open>(vm, src, dst)\<close> is well-formed for a candidate list and a list of ON hosts: it names
  a candidate and its current host, and goes to another host of the list.
\<close>

definition move_ok :: "Host list \<Rightarrow> VM list \<Rightarrow> int \<times> int \<times> int \<Rightarrow> bool" where
  "move_ok on cs mv =
     (case mv of (vid, src, dst) \<Rightarrow>
        list_ex (\<lambda>vm. v_id vm = vid \<and> host_id vm = src \<and> dst \<noteq> host_id vm) cs \<and>
        list_ex (\<lambda>h. h_id h = dst) on)"

text \<open>What every run keeps true of its hosts: distinct ids and the default CPU capacity.\<close>

definition hosts_ok :: "Host list \<Rightarrow> bool" where
  "hosts_ok hs \<longleftrightarrow> distinct (map h_id hs) \<and> list_all (\<lambda>h. cpu_cap h = 100) hs"

text \<open>
  What every run keeps true of its VMs: the id of a VM is its position in the list, and both
  histories hold at least two samples.
\<close>

definition hist2 :: "VM \<Rightarrow> bool" where
  "hist2 vm \<longleftrightarrow> 2 \<le> length (cpu_use_hist vm) \<and> 2 \<le> length (mem_use_hist vm)"

definition vms_ok :: "VM list \<Rightarrow> bool" where
  "vms_ok vs \<longleftrightarrow> map v_id vs = map int [0..<length vs] \<and> list_all hist2 vs"

text \<open>Every host of the list has an entry in the dictionary.\<close>

definition covers :: "Host list \<Rightarrow> 'v dict \<Rightarrow> bool" where
  "covers on d \<longleftrightarrow> list_all (\<lambda>h. map_of d (h_id h) \<noteq> None) on"

text \<open>The predictions of a VM are the moving average of its last two samples.\<close>

definition ema_ok :: "real \<Rightarrow> VM \<Rightarrow> bool" where
  "ema_ok a vm \<longleftrightarrow>
     2 \<le> length (cpu_use_hist vm) \<and> 2 \<le> length (mem_use_hist vm) \<and>
     pred_cpu vm = a * last (cpu_use_hist vm) + (1 - a) * (cpu_use_hist vm ! (length (cpu_use_hist vm) - 2)) \<and>
     pred_mem vm = a * last (mem_use_hist vm) + (1 - a) * (mem_use_hist vm ! (length (mem_use_hist vm) - 2))"

text \<open>Two VMs that differ at most in their stored predictions.\<close>

definition same_but_pred :: "VM \<Rightarrow> VM \<Rightarrow> bool" where
  "same_but_pred a b \<longleftrightarrow>
     v_id a = v_id b \<and> host_id a = host_id b \<and>
     cpu_use_hist a = cpu_use_hist b \<and> mem_use_hist a = mem_use_hist b"

text \<open>
  Placement: no VM names a host that is not ON; every VM names a host of the list.
\<close>

definition no_off_ref :: "Sim \<Rightarrow> bool" where
  "no_off_ref s \<longleftrightarrow> (\<forall>vm\<in>set (vms s). \<forall>h\<in>set (hosts s). h_id h = host_id vm \<longrightarrow> status h = ''ON'')"

definition host_exists :: "Sim \<Rightarrow> bool" where
  "host_exists s \<longleftrightarrow> (\<forall>vm\<in>set (vms s). \<exists>h\<in>set (hosts s). h_id h = host_id vm)"

text \<open>
  The configuration during a run started from \<open>c\<close>: it differs from \<open>c\<close> in \<open>target_util\<close>
  at most, and not at all while no breach has been counted.
\<close>

definition cfg_inv :: "Config \<Rightarrow> Sim \<Rightarrow> bool" where
  "cfg_inv c s \<longleftrightarrow> 0 \<le> total_breaches s \<and> (total_breaches s = 0 \<longrightarrow> cfg s = c) \<and>
                   cfg s = c\<lparr>target_util := target_util (cfg s)\<rparr>"

text \<open>
  Two calls in sequence on one configuration object,
  \<^verbatim>\<open>r1 = simulate(cfg); r2 = simulate(cfg)\<close>: the second call starts from the configuration
  as the first one left it.
\<close>

definition run_twice :: "(int \<Rightarrow> nat \<Rightarrow> real) \<Rightarrow> Config \<Rightarrow> error + (Summary \<times> Summary)" where
  "run_twice gen c =
     bind_r (simulate gen c) (\<lambda>(r1, c1).
     bind_r (simulate gen c1) (\<lambda>(r2, c2). Inr (r1, r2)))"

text \<open>
  A configuration with one host and twenty VMs, run for one cycle with the default \<open>alpha\<close>
  and watermark; and what its VMs satisfy after initialisation when no random draw is
  negative.
\<close>

definition crowded :: "Config \<Rightarrow> bool" where
  "crowded c \<longleftrightarrow> n_hosts c = 1 \<and> n_vms c = 20 \<and> cycles c = 1 \<and> alpha c = 3 / 5 \<and> hi_watermark c = 9 / 10"

definition on_host0 :: "VM \<Rightarrow> bool" where
  "on_host0 vm \<longleftrightarrow> host_id vm = 0 \<and> cpu_use_hist vm \<noteq> [] \<and> 10 \<le> last (cpu_use_hist vm)"

subsection \<open>Example runs\<close>

text \<open>
  Concrete runs used to instantiate the theorems. The random draws are fixed streams:
  \<open>gen_half\<close> always draws 1/2 (initial CPU 35, drift noise 0), \<open>gen_64\<close> always draws 1/64,
  \<open>gen_rise\<close> draws 19/50 three times, then 1/2 three times, and 15/16 afterwards.
\<close>

definition gen_half :: "int \<Rightarrow> nat \<Rightarrow> real" where
  "gen_half sd k = 1 / 2"

definition gen_64 :: "int \<Rightarrow> nat \<Rightarrow> real" where
  "gen_64 sd k = 1 / 64"

definition gen_rise :: "int \<Rightarrow> nat \<Rightarrow> real" where
  "gen_rise sd k = (if k < 3 then 19 / 50 else if k < 6 then 1 / 2 else 15 / 16)"

text \<open>
  Example A: two hosts, one VM on each, threshold 100. In cycle 0 VM 1 moves to host 0 and
  host 1 goes OFF; \<open>exA_s2\<close> is the state after a later cycle (index 24, where the sine term
  of the drift is 0 again).
\<close>

definition exA_cfg :: Config where
  "exA_cfg = \<lparr>alpha = 0.6, low_usage_threshold = 100, target_util = 0.8, hi_watermark = 0.9,
              dt_hours = 1, cycles = 1, n_hosts = 2, n_vms = 2, seed = 7\<rparr>"

definition exA_hosts :: "Host list" where
  "exA_hosts = [Host_init 0, Host_init 1]"

definition exA_s0 :: Sim where
  "exA_s0 = \<lparr>hosts = exA_hosts, vms = [VM_init 0 0 35 28, VM_init 1 1 35 28], total_kwh = 0,
             total_migrations = 0, total_breaches = 0, cfg = exA_cfg, draws = 2\<rparr>"

definition exA_vm :: "int \<Rightarrow> int \<Rightarrow> VM" where
  "exA_vm i h = \<lparr>v_id = i, host_id = h, cpu_use_hist = [35, 35, 35],
                 mem_use_hist = [28, 28, 28], pred_cpu = 35, pred_mem = 28\<rparr>"

definition exA_s1 :: Sim where
  "exA_s1 = \<lparr>hosts = [Host_init 0, (Host_init 1)\<lparr>status := ''OFF''\<rparr>],
             vms = [exA_vm 0 0, exA_vm 1 0], total_kwh = 0.12,
             total_migrations = 1, total_breaches = 0, cfg = exA_cfg, draws = 4\<rparr>"

definition exA_summary :: Summary where
  "exA_summary = \<lparr>energy_kwh_total = 0.12, migrations_total = 1, hosts_off_final = 1,
                  util_mean_final = 0.7, util_p95_final = 0.7, hi_watermark_breaches = 0,
                  final_target_util = 0.8\<rparr>"

definition exA_vm4 :: "int \<Rightarrow> VM" where
  "exA_vm4 i = \<lparr>v_id = i, host_id = 0, cpu_use_hist = [35, 35, 35, 35],
                mem_use_hist = [28, 28, 28, 28], pred_cpu = 35, pred_mem = 28\<rparr>"

definition exA_s2 :: Sim where
  "exA_s2 = \<lparr>hosts = [Host_init 0, (Host_init 1)\<lparr>status := ''OFF''\<rparr>],
             vms = [exA_vm4 0, exA_vm4 1], total_kwh = 0.24,
             total_migrations = 1, total_breaches = 0, cfg = exA_cfg, draws = 6\<rparr>"

text \<open>
  Example B: one host, three VMs of predicted CPU 35 each, configured \<open>target_util = tu\<close>. The
  load 105 breaches the watermark 90.
\<close>

definition exB_cfg :: "real \<Rightarrow> Config" where
  "exB_cfg tu = \<lparr>alpha = 0.6, low_usage_threshold = 30, target_util = tu, hi_watermark = 0.9,
                 dt_hours = 1, cycles = 1, n_hosts = 1, n_vms = 3, seed = 7\<rparr>"

definition exB_s0 :: "real \<Rightarrow> Sim" where
  "exB_s0 tu = \<lparr>hosts = [Host_init 0],
                vms = [VM_init 0 0 35 28, VM_init 1 0 35 28, VM_init 2 0 35 28], total_kwh = 0,
                total_migrations = 0, total_breaches = 0, cfg = exB_cfg tu, draws = 3\<rparr>"

definition exB_vms :: "VM list" where
  "exB_vms = [exA_vm 0 0, exA_vm 1 0, exA_vm 2 0]"

definition exB_s1 :: "real \<Rightarrow> Sim" where
  "exB_s1 tu = \<lparr>hosts = [Host_init 0], vms = exB_vms, total_kwh = 0,
                total_migrations = 0, total_breaches = 1, cfg = exB_cfg tu, draws = 6\<rparr>"

definition exB_summary :: "real \<Rightarrow> Summary" where
  "exB_summary tu = \<lparr>energy_kwh_total = 0, migrations_total = 0, hosts_off_final = 0,
                     util_mean_final = 1.05, util_p95_final = 1.05, hi_watermark_breaches = 1,
                     final_target_util = tu\<rparr>"

text \<open>
  Example C: one host, three VMs of initial CPU 29, \<open>target_util = 0.5\<close>, two cycles, every
  other setting at its default. The load is 87 in cycle 0 and, with the drift \<open>7 + 10 * sin (pi / 12)\<close>
  of cycle 1, at least 99.6 in cycle 1. \<open>exC_cpu\<close> and \<open>exC_mem\<close> are the samples observed
  in cycle 1.
\<close>

definition exC_cfg :: Config where
  "exC_cfg = \<lparr>alpha = 0.6, low_usage_threshold = 30, target_util = 0.5, hi_watermark = 0.9,
              dt_hours = 1, cycles = 2, n_hosts = 1, n_vms = 3, seed = 7\<rparr>"

definition exC_s0 :: Sim where
  "exC_s0 = \<lparr>hosts = [Host_init 0],
             vms = [VM_init 0 0 29 23.2, VM_init 1 0 29 23.2, VM_init 2 0 29 23.2], total_kwh = 0,
             total_migrations = 0, total_breaches = 0, cfg = exC_cfg, draws = 3\<rparr>"

definition exC_vm1 :: "int \<Rightarrow> VM" where
  "exC_vm1 i = \<lparr>v_id = i, host_id = 0, cpu_use_hist = [29, 29, 29],
                mem_use_hist = [23.2, 23.2, 23.2], pred_cpu = 29, pred_mem = 23.2\<rparr>"

definition exC_s1 :: Sim where
  "exC_s1 = \<lparr>hosts = [Host_init 0], vms = [exC_vm1 0, exC_vm1 1, exC_vm1 2], total_kwh = 0,
             total_migrations = 0, total_breaches = 0, cfg = exC_cfg, draws = 6\<rparr>"

definition exC_cpu :: real where
  "exC_cpu = bounded (29 + synth_drift (15 / 16) 1) 0 100"

definition exC_mem :: real where
  "exC_mem = bounded (23.2 + synth_drift (15 / 16) 1 * 0.8) 0 100"

definition exC_vm2 :: "int \<Rightarrow> VM" where
  "exC_vm2 i = \<lparr>v_id = i, host_id = 0, cpu_use_hist = [29, 29, 29, exC_cpu],
                mem_use_hist = [23.2, 23.2, 23.2, exC_mem],
                pred_cpu = 0.6 * exC_cpu + (1 - 0.6) * 29,
                pred_mem = 0.6 * exC_mem + (1 - 0.6) * 23.2\<rparr>"

definition exC_s2 :: Sim where
  "exC_s2 = \<lparr>hosts = [Host_init 0], vms = [exC_vm2 0, exC_vm2 1, exC_vm2 2], total_kwh = 0,
             total_migrations = 0, total_breaches = 1, cfg = exC_cfg\<lparr>target_util := 0.7\<rparr>, draws = 9\<rparr>"

text \<open>Example D: one host, one VM, predicted CPU 6.13125.\<close>

definition exD_cfg :: Config where
  "exD_cfg = \<lparr>alpha = 0.6, low_usage_threshold = 30, target_util = 0.8, hi_watermark = 0.9,
              dt_hours = 1, cycles = 1, n_hosts = 1, n_vms = 1, seed = 7\<rparr>"

definition exD_s0 :: Sim where
  "exD_s0 = \<lparr>hosts = [Host_init 0], vms = [VM_init 0 0 (345 / 32) (69 / 8)], total_kwh = 0,
             total_migrations = 0, total_breaches = 0, cfg = exD_cfg, draws = 1\<rparr>"

definition exD_vm :: VM where
  "exD_vm = \<lparr>v_id = 0, host_id = 0, cpu_use_hist = [345 / 32, 345 / 32, 97 / 32],
             mem_use_hist = [69 / 8, 69 / 8, 97 / 40], pred_cpu = 981 / 160, pred_mem = 981 / 200\<rparr>"

definition exD_s1 :: Sim where
  "exD_s1 = \<lparr>hosts = [Host_init 0], vms = [exD_vm], total_kwh = 0,
             total_migrations = 0, total_breaches = 0, cfg = exD_cfg, draws = 2\<rparr>"

definition exD_summary :: Summary where
  "exD_summary = \<lparr>energy_kwh_total = 0, migrations_total = 0, hosts_off_final = 0,
                  util_mean_final = 613 / 10000, util_p95_final = 981 / 16000,
                  hi_watermark_breaches = 0, final_target_util = 0.8\<rparr>"

section \<open>Lemmas\<close>

subsection \<open>Results and errors\<close>

lemma bind_r_Inr [simp]: "bind_r (Inr x) f = f x"
  by (simp add: bind_r_def)

lemma bind_r_Inl [simp]: "bind_r (Inl e) f = Inl e"
  by (simp add: bind_r_def)

lemma bind_r_eq_Inr: "bind_r m f = Inr y \<longleftrightarrow> (\<exists>x. m = Inr x \<and> f x = Inr y)"
  by (cases m) simp_all

subsection \<open>The planner\<close>

lemma first_fit_Some:
  "first_fit vm on cl ml tu = Inr (Some h) \<Longrightarrow>
     h \<in> set on \<and>
     (\<exists>c m. map_of cl (h_id h) = Some c \<and> c + pred_cpu vm \<le> cpu_cap h * tu \<and>
            map_of ml (h_id h) = Some m \<and> m + pred_mem vm \<le> mem_cap h * tu)"
  by (induction on) (auto split: option.splits if_splits)

lemma plan_step_cases:
  assumes "plan_step tu on (p, cl, ml) vm = Inr (p', cl', ml')"
  shows "(p' = p \<and> cl' = cl \<and> ml' = ml) \<or>
         (\<exists>dst\<in>set on. h_id dst \<noteq> host_id vm \<and>
            p' = p @ [(v_id vm, host_id vm, h_id dst)] \<and>
            cl' = AList.map_entry (h_id dst) (\<lambda>x. x + pred_cpu vm) cl \<and>
            ml' = AList.map_entry (h_id dst) (\<lambda>x. x + pred_mem vm) ml \<and>
            (\<exists>c m. map_of cl (h_id dst) = Some c \<and> c + pred_cpu vm \<le> cpu_cap dst * tu \<and>
                   map_of ml (h_id dst) = Some m \<and> m + pred_mem vm \<le> mem_cap dst * tu))"
proof (cases "first_fit vm on cl ml tu")
  case (Inl e)
  with assms show ?thesis by (simp add: plan_step_def)
next
  case (Inr r)
  show ?thesis
  proof (cases r)
    case None
    with Inr assms show ?thesis by (simp add: plan_step_def)
  next
    case (Some dst)
    note ff = first_fit_Some[OF Inr[unfolded Some]]
    show ?thesis
    proof (cases "h_id dst = host_id vm")
      case True
      with Some Inr assms show ?thesis by (simp add: plan_step_def)
    next
      case False
      with Some Inr assms have "p' = p @ [(v_id vm, host_id vm, h_id dst)]"
        "cl' = AList.map_entry (h_id dst) (\<lambda>x. x + pred_cpu vm) cl"
        "ml' = AList.map_entry (h_id dst) (\<lambda>x. x + pred_mem vm) ml"
        by (simp_all add: plan_step_def)
      with ff False show ?thesis by blast
    qed
  qed
qed

lemma plan_loop_append:
  "plan_loop tu on (xs @ ys) st = bind_r (plan_loop tu on xs st) (plan_loop tu on ys)"
proof (induction xs arbitrary: st)
  case Nil
  show ?case by simp
next
  case (Cons x xs)
  show ?case
    by (cases "plan_step tu on st x") (simp_all add: Cons.IH)
qed

lemma move_ok_mono: "move_ok on cs mv \<Longrightarrow> set cs \<subseteq> set cs' \<Longrightarrow> move_ok on cs' mv"
  by (auto simp: move_ok_def list_ex_iff)

lemma plan_loop_moves:
  "plan_loop tu on cs (p, cl, ml) = Inr (p', cl', ml') \<Longrightarrow>
     \<exists>new. p' = p @ new \<and> list_all (move_ok on cs) new"
proof (induction cs arbitrary: p cl ml)
  case Nil
  then show ?case by simp
next
  case (Cons vm cs)
  from Cons.prems obtain p1 cl1 ml1 where
    s: "plan_step tu on (p, cl, ml) vm = Inr (p1, cl1, ml1)"
    and l: "plan_loop tu on cs (p1, cl1, ml1) = Inr (p', cl', ml')"
    by (auto simp: bind_r_eq_Inr)
  from Cons.IH[OF l] obtain new where new: "p' = p1 @ new" "list_all (move_ok on cs) new"
    by blast
  then have new': "list_all (move_ok on (vm # cs)) new"
    by (auto simp: list_all_iff intro: move_ok_mono)
  from plan_step_cases[OF s] show ?case
  proof
    assume "p1 = p \<and> cl1 = cl \<and> ml1 = ml"
    with new new' show ?thesis by auto
  next
    assume "\<exists>dst\<in>set on. h_id dst \<noteq> host_id vm \<and>
            p1 = p @ [(v_id vm, host_id vm, h_id dst)] \<and>
            cl1 = AList.map_entry (h_id dst) (\<lambda>x. x + pred_cpu vm) cl \<and>
            ml1 = AList.map_entry (h_id dst) (\<lambda>x. x + pred_mem vm) ml \<and>
            (\<exists>c m. map_of cl (h_id dst) = Some c \<and> c + pred_cpu vm \<le> cpu_cap dst * tu \<and>
                   map_of ml (h_id dst) = Some m \<and> m + pred_mem vm \<le> mem_cap dst * tu)"
    then obtain dst where d: "dst \<in> set on" "h_id dst \<noteq> host_id vm"
      "p1 = p @ [(v_id vm, host_id vm, h_id dst)]" by blast
    then have "move_ok on (vm # cs) (v_id vm, host_id vm, h_id dst)"
      by (auto simp: move_ok_def list_ex_iff)
    with new new' d show ?thesis by auto
  qed
qed

lemma set_candidates: "set (candidates c vs) = {vm \<in> set vs. pred_cpu vm \<le> low_usage_threshold c}"
  by (auto simp: candidates_def)

lemma planner_moves:
  assumes "planner c hs vs = Inr (p, cl, ml)"
  shows "list_all (move_ok (active_hosts hs) (candidates c vs)) p"
proof -
  obtain cl0 ml0 where l0: "loads_predicted (active_hosts hs) vs = (cl0, ml0)"
    by (cases "loads_predicted (active_hosts hs) vs")
  with assms have "plan_loop (target_util c) (active_hosts hs) (candidates c vs) ([], cl0, ml0) = Inr (p, cl, ml)"
    by (simp add: planner_def Let_def)
  from plan_loop_moves[OF this] show ?thesis by simp
qed

subsection \<open>Dictionaries and predicted loads\<close>

lemma fold_update_other:
  "k \<notin> h_id ` set xs \<Longrightarrow> map_of (fold (\<lambda>h. AList.update (h_id h) (f h)) xs d) k = map_of d k"
  by (induction xs arbitrary: d) (auto simp: update_conv')

lemma fold_update_same:
  "k \<in> h_id ` set xs \<Longrightarrow> (\<forall>h\<in>set xs. h_id h = k \<longrightarrow> f h = v) \<Longrightarrow>
     map_of (fold (\<lambda>h. AList.update (h_id h) (f h)) xs d) k = Some v"
proof (induction xs arbitrary: d)
  case Nil
  then show ?case by simp
next
  case (Cons x xs)
  show ?case
  proof (cases "k \<in> h_id ` set xs")
    case True
    with Cons show ?thesis by simp
  next
    case False
    with Cons.prems have "h_id x = k" "f x = v" by auto
    with False show ?thesis by (simp add: fold_update_other update_conv')
  qed
qed

lemma fold_update_distinct:
  "distinct (map fst d) \<Longrightarrow> distinct (map fst (fold (\<lambda>h. AList.update (h_id h) (f h)) xs d))"
  by (induction xs arbitrary: d) (simp_all add: distinct_update)

lemma dict_of_None: "k \<notin> h_id ` set hs \<Longrightarrow> map_of (dict_of f hs) k = None"
  by (simp add: dict_of_def fold_update_other)

lemma dict_of_const: "k \<in> h_id ` set hs \<Longrightarrow> map_of (dict_of (\<lambda>h. v) hs) k = Some v"
  by (simp add: dict_of_def fold_update_same)

lemma on_dict_distinct: "distinct (map fst (on_dict f hs))"
  by (simp add: on_dict_def dict_of_def fold_update_distinct)

lemma on_dict_None:
  "k \<notin> h_id ` set (active_hosts hs) \<Longrightarrow> map_of (on_dict f hs) k = None"
  by (simp add: on_dict_def dict_of_def active_hosts_def fold_update_other)

lemma on_dict_const:
  "k \<in> h_id ` set (active_hosts hs) \<Longrightarrow> map_of (on_dict (\<lambda>h. v) hs) k = Some v"
  by (simp add: on_dict_def dict_of_def active_hosts_def fold_update_same)

lemma on_dict_Some:
  assumes "distinct (map h_id hs)" and "h \<in> set hs" and "status h = ''ON''"
  shows "map_of (on_dict f hs) (h_id h) = Some (f h)"
proof -
  have d: "distinct (map h_id (filter (\<lambda>h. status h = ''ON'') hs))"
    using assms(1) by (simp add: distinct_map_filter)
  have "\<forall>h'\<in>set (filter (\<lambda>h. status h = ''ON'') hs). h_id h' = h_id h \<longrightarrow> f h' = f h"
    using assms(1,2) by (auto simp: distinct_map dest: inj_onD)
  moreover have "h_id h \<in> h_id ` set (filter (\<lambda>h. status h = ''ON'') hs)"
    using assms(2,3) by auto
  ultimately show ?thesis
    unfolding on_dict_def dict_of_def by (rule fold_update_same[rotated])
qed

lemma active_hosts_idem [simp]: "active_hosts (active_hosts hs) = active_hosts hs"
  by (simp add: active_hosts_def)

lemma map_entry_absent: "map_of xs k = None \<Longrightarrow> AList.map_entry k f xs = xs"
  by (induction xs) (auto split: if_splits)

lemma fst_add_load:
  "fst (add_load vm lm) = AList.map_entry (host_id vm) (\<lambda>x. x + pred_cpu vm) (fst lm)"
  by (cases lm) (auto simp: add_load_def map_entry_absent)

lemma fst_fold_add_load:
  "fst (fold add_load vs lm) = fold (\<lambda>vm. AList.map_entry (host_id vm) (\<lambda>x. x + pred_cpu vm)) vs (fst lm)"
  by (induction vs arbitrary: lm) (simp_all add: fst_add_load)

lemma fold_map_entry_cpu:
  "map_of (fold (\<lambda>vm. AList.map_entry (host_id vm) (\<lambda>x. x + pred_cpu vm)) vs d) k =
     map_option (\<lambda>x. x + host_load vs k) (map_of d k)"
proof (induction vs arbitrary: d)
  case Nil
  show ?case by (simp add: host_load_def option.map_ident)
next
  case (Cons vm vs)
  show ?case
    by (cases "map_of d k"; cases "host_id vm = k")
       (simp_all add: Cons.IH map_of_map_entry host_load_def add.assoc)
qed

lemma fold_map_entry_distinct:
  "distinct (map fst d) \<Longrightarrow>
     distinct (map fst (fold (\<lambda>vm. AList.map_entry (host_id vm) (g vm)) vs d))"
  by (induction vs arbitrary: d) (simp_all add: distinct_map_entry)

lemma cpu_loads_distinct: "distinct (map fst (fst (loads_predicted hs vs)))"
  by (simp add: loads_predicted_def fst_fold_add_load fold_map_entry_distinct on_dict_distinct)

lemma cpu_loads_lookup:
  "map_of (fst (loads_predicted hs vs)) k =
     (if k \<in> h_id ` set (active_hosts hs) then Some (host_load vs k) else None)"
  by (simp add: loads_predicted_def fst_fold_add_load fold_map_entry_cpu on_dict_None on_dict_const)

lemma fold_map_entry_sum:
  "map_of (fold (\<lambda>vm. AList.map_entry (host_id vm) (\<lambda>x. x + g vm)) vs d) k =
     map_option (\<lambda>x. x + sum_list (map g (filter (\<lambda>vm. host_id vm = k) vs))) (map_of d k)"
proof (induction vs arbitrary: d)
  case Nil
  show ?case by (simp add: option.map_ident)
next
  case (Cons vm vs)
  show ?case
    by (cases "map_of d k"; cases "host_id vm = k")
       (simp_all add: Cons.IH map_of_map_entry add.assoc)
qed

lemma add_load_keys:
  "fst ` set (fst (add_load vm lm)) = fst ` set (fst lm)"
  "fst ` set (snd (add_load vm lm)) = fst ` set (snd lm)"
  by (cases lm; simp add: add_load_def dom_map_entry)+

lemma snd_add_load:
  assumes "fst ` set (fst lm) = fst ` set (snd lm)"
  shows "snd (add_load vm lm) = AList.map_entry (host_id vm) (\<lambda>x. x + pred_mem vm) (snd lm)"
proof (cases "map_of (fst lm) (host_id vm)")
  case None
  then have "host_id vm \<notin> fst ` set (fst lm)"
    by (simp add: map_of_eq_None_iff)
  with assms have "map_of (snd lm) (host_id vm) = None"
    by (simp add: map_of_eq_None_iff)
  with None show ?thesis
    by (cases lm) (simp add: add_load_def map_entry_absent)
next
  case (Some x)
  then show ?thesis
    by (cases lm) (simp add: add_load_def)
qed

lemma snd_fold_add_load:
  "fst ` set (fst lm) = fst ` set (snd lm) \<Longrightarrow>
     snd (fold add_load vs lm) = fold (\<lambda>vm. AList.map_entry (host_id vm) (\<lambda>x. x + pred_mem vm)) vs (snd lm)"
proof (induction vs arbitrary: lm)
  case Nil
  show ?case by simp
next
  case (Cons vm vs)
  from Cons.prems have "fst ` set (fst (add_load vm lm)) = fst ` set (snd (add_load vm lm))"
    by (simp add: add_load_keys)
  from Cons.IH[OF this] snd_add_load[OF Cons.prems, of vm] show ?case by simp
qed

lemma mem_loads_lookup:
  "map_of (snd (loads_predicted hs vs)) k =
     (if k \<in> h_id ` set (active_hosts hs) then Some (host_load_mem vs k) else None)"
  by (simp add: loads_predicted_def snd_fold_add_load fold_map_entry_sum host_load_mem_def
      on_dict_None on_dict_const)

subsection \<open>The watermark test\<close>

lemma any_high_watermark_iff:
  "any_high_watermark cl on hw \<longleftrightarrow>
     (\<exists>(hid, load)\<in>set cl. \<exists>cap. map_of (on_dict cpu_cap on) hid = Some cap \<and> 0 < cap \<and> cap * hw < load)"
proof -
  have "\<And>hid load. (let cap = (case map_of (on_dict cpu_cap on) hid of None \<Rightarrow> 0 | Some c \<Rightarrow> c)
                      in cap > 0 \<and> load > cap * hw) \<longleftrightarrow>
         (\<exists>cap. map_of (on_dict cpu_cap on) hid = Some cap \<and> 0 < cap \<and> cap * hw < load)"
    by (simp add: Let_def split: option.splits)
  then show ?thesis
    by (simp add: any_high_watermark_def list_ex_iff Let_def split_def)
qed

lemma breach_iff:
  assumes "distinct (map h_id hs)"
  shows "breach c hs vs \<longleftrightarrow>
           (\<exists>h\<in>set hs. status h = ''ON'' \<and> 0 < cpu_cap h \<and>
                       cpu_cap h * hi_watermark c < host_load vs (h_id h))"
proof
  assume "breach c hs vs"
  then obtain hid load cap where
    m: "(hid, load) \<in> set (fst (loads_predicted (active_hosts hs) vs))"
    and cap: "map_of (on_dict cpu_cap (active_hosts hs)) hid = Some cap" "0 < cap" "cap * hi_watermark c < load"
    by (auto simp: breach_def Let_def any_high_watermark_iff)
  from m have "map_of (fst (loads_predicted (active_hosts hs) vs)) hid = Some load"
    by (simp add: cpu_loads_distinct)
  then have hid: "hid \<in> h_id ` set (active_hosts hs)" and load: "load = host_load vs hid"
    by (auto simp: cpu_loads_lookup split: if_splits)
  from hid obtain h where h: "h \<in> set hs" "status h = ''ON''" "h_id h = hid"
    by (auto simp: active_hosts_def)
  have "distinct (map h_id (active_hosts hs))"
    using assms by (simp add: active_hosts_def distinct_map_filter)
  from on_dict_Some[OF this, of h cpu_cap] h cap have "cap = cpu_cap h"
    by (simp add: active_hosts_def)
  with h cap load show "\<exists>h\<in>set hs. status h = ''ON'' \<and> 0 < cpu_cap h \<and>
                       cpu_cap h * hi_watermark c < host_load vs (h_id h)"
    by auto
next
  assume "\<exists>h\<in>set hs. status h = ''ON'' \<and> 0 < cpu_cap h \<and>
                       cpu_cap h * hi_watermark c < host_load vs (h_id h)"
  then obtain h where h: "h \<in> set hs" "status h = ''ON''" "0 < cpu_cap h"
    "cpu_cap h * hi_watermark c < host_load vs (h_id h)" by blast
  have d: "distinct (map h_id (active_hosts hs))"
    using assms by (simp add: active_hosts_def distinct_map_filter)
  from h have hin: "h \<in> set (active_hosts hs)" by (simp add: active_hosts_def)
  from on_dict_Some[OF d hin h(2), of cpu_cap]
  have c: "map_of (on_dict cpu_cap (active_hosts hs)) (h_id h) = Some (cpu_cap h)" .
  from hin have "map_of (fst (loads_predicted (active_hosts hs) vs)) (h_id h) = Some (host_load vs (h_id h))"
    by (simp add: cpu_loads_lookup)
  then have "(h_id h, host_load vs (h_id h)) \<in> set (fst (loads_predicted (active_hosts hs) vs))"
    by (rule map_of_SomeD)
  with c h show "breach c hs vs"
    by (auto simp: breach_def Let_def any_high_watermark_iff)
qed

subsection \<open>The shutdown step\<close>

lemma mark_vm_lookup:
  "map_of (fold mark_vm vs d) k =
     (case map_of d k of None \<Rightarrow> None | Some b \<Rightarrow> Some (b \<or> (\<exists>vm\<in>set vs. host_id vm = k)))"
proof (induction vs arbitrary: d)
  case Nil
  show ?case by (simp split: option.splits)
next
  case (Cons vm vs)
  have "map_of (mark_vm vm d) k =
          (case map_of d k of None \<Rightarrow> None | Some b \<Rightarrow> Some (b \<or> host_id vm = k))"
    by (auto simp: mark_vm_def update_conv' split: option.splits)
  moreover have "fold mark_vm (vm # vs) d = fold mark_vm vs (mark_vm vm d)"
    by simp
  ultimately show ?case
    by (auto simp: Cons.IH split: option.splits)
qed

lemma has_vm_lookup:
  "map_of (has_vm on vs) k =
     (if k \<in> h_id ` set on then Some (\<exists>vm\<in>set vs. host_id vm = k) else None)"
  by (simp add: has_vm_def mark_vm_lookup dict_of_None dict_of_const)

lemma shutdown_eq:
  "shutdown hs vs =
     map (\<lambda>h. if status h = ''ON'' \<and> (\<forall>vm\<in>set vs. host_id vm \<noteq> h_id h)
              then h\<lparr>status := ''OFF''\<rparr> else h) hs"
  unfolding shutdown_def Let_def
  by (rule map_cong) (auto simp: has_vm_lookup active_hosts_def)

subsection \<open>Cycles and runs\<close>

lemma cycleE:
  assumes "cycle rnd s t = Inr s'"
  obtains vs1 k vs2 p cl ml where
    "update_usage rnd t (draws s) (vms s) = Inr (vs1, k)"
    "predict_all (alpha (cfg s)) vs1 = Inr vs2"
    "planner (cfg s) (hosts s) vs2 = Inr (p, cl, ml)"
    "execute p vs2 = Inr (vms s')"
    "hosts s' = shutdown (hosts s) (vms s')"
    "total_kwh s' = total_kwh s + cycle_kwh (hosts s') (dt_hours (cfg s))"
    "total_migrations s' = total_migrations s + int (length p)"
    "total_breaches s' = (if breach (cfg s) (hosts s') (vms s') then total_breaches s + 1 else total_breaches s)"
    "cfg s' = feedback (breach (cfg s) (hosts s') (vms s')) (cfg s)"
    "draws s' = k"
proof -
  from assms obtain vs1 k where 1: "update_usage rnd t (draws s) (vms s) = Inr (vs1, k)"
    by (cases "update_usage rnd t (draws s) (vms s)") (auto simp: cycle_def)
  from assms 1 obtain vs2 where 2: "predict_all (alpha (cfg s)) vs1 = Inr vs2"
    by (cases "predict_all (alpha (cfg s)) vs1") (auto simp: cycle_def)
  from assms 1 2 obtain p cl ml where 3: "planner (cfg s) (hosts s) vs2 = Inr (p, cl, ml)"
    by (cases "planner (cfg s) (hosts s) vs2") (auto simp: cycle_def)
  from assms 1 2 3 obtain vs3 where 4: "execute p vs2 = Inr vs3"
    by (cases "execute p vs2") (auto simp: cycle_def)
  from assms 1 2 3 4 have s': "s' = \<lparr>hosts = shutdown (hosts s) vs3, vms = vs3,
               total_kwh = total_kwh s + cycle_kwh (shutdown (hosts s) vs3) (dt_hours (cfg s)),
               total_migrations = total_migrations s + int (length p),
               total_breaches = (if breach (cfg s) (shutdown (hosts s) vs3) vs3 then total_breaches s + 1 else total_breaches s),
               cfg = feedback (breach (cfg s) (shutdown (hosts s) vs3) vs3) (cfg s),
               draws = k\<rparr>"
    by (simp add: cycle_def Let_def)
  show thesis
    by (rule that[OF 1 2 3]) (simp_all add: s' 4)
qed

lemma run_cycles_append:
  "run_cycles rnd s (ts @ us) = bind_r (run_cycles rnd s ts) (\<lambda>s'. run_cycles rnd s' us)"
proof (induction ts arbitrary: s)
  case Nil
  show ?case by simp
next
  case (Cons t ts)
  show ?case by (cases "cycle rnd s t") (simp_all add: Cons.IH)
qed

lemma run_cycles_induct:
  assumes "run_cycles rnd s ts = Inr s'" and "P s"
    and "\<And>a t b. P a \<Longrightarrow> cycle rnd a t = Inr b \<Longrightarrow> P b"
  shows "P s'"
  using assms(1,2)
proof (induction ts arbitrary: s)
  case Nil
  then show ?case by simp
next
  case (Cons t ts)
  from Cons.prems(1) obtain m where m: "cycle rnd s t = Inr m" "run_cycles rnd m ts = Inr s'"
    by (auto simp: bind_r_eq_Inr)
  from assms(3)[OF Cons.prems(2) m(1)] have "P m" .
  from Cons.IH[OF m(2) this] show ?case .
qed

subsection \<open>Energy\<close>

lemma cycle_kwh_alt:
  "cycle_kwh hs dt = (\<Sum>h\<leftarrow>hs. if status h = ''OFF'' then power_idle_watts h else 0) * dt / 1000"
  by (simp add: cycle_kwh_def off_hosts_def sum_list_map_filter')

subsection \<open>Hosts\<close>

lemma shutdown_length [simp]: "length (shutdown hs vs) = length hs"
  by (simp add: shutdown_eq)

lemma shutdown_ids [simp]: "map h_id (shutdown hs vs) = map h_id hs"
  by (simp add: shutdown_eq)

lemma shutdown_nth:
  "i < length hs \<Longrightarrow> shutdown hs vs ! i =
     (if status (hs ! i) = ''ON'' \<and> (\<forall>vm\<in>set vs. host_id vm \<noteq> h_id (hs ! i))
      then (hs ! i)\<lparr>status := ''OFF''\<rparr> else hs ! i)"
  by (simp add: shutdown_eq)

lemma shutdown_caps: "list_all (\<lambda>h. cpu_cap h = x) hs \<Longrightarrow> list_all (\<lambda>h. cpu_cap h = x) (shutdown hs vs)"
  by (auto simp: shutdown_eq list_all_iff)

lemma hosts_ok_shutdown: "hosts_ok hs \<Longrightarrow> hosts_ok (shutdown hs vs)"
  by (simp add: hosts_ok_def shutdown_caps)

lemma hosts_ok_cycle: "hosts_ok (hosts s) \<Longrightarrow> cycle rnd s t = Inr s' \<Longrightarrow> hosts_ok (hosts s')"
  by (elim cycleE) (simp add: hosts_ok_shutdown)

lemma init_sim_hosts: "init_sim rnd c = Inr s0 \<Longrightarrow> hosts s0 = map Host_init [0..n_hosts c - 1]"
  by (auto simp: init_sim_def bind_r_eq_Inr)

lemma init_sim_cfg: "init_sim rnd c = Inr s0 \<Longrightarrow> cfg s0 = c"
  by (auto simp: init_sim_def bind_r_eq_Inr)

lemma hosts_ok_init: "init_sim rnd c = Inr s0 \<Longrightarrow> hosts_ok (hosts s0)"
  by (simp add: init_sim_hosts hosts_ok_def list_all_iff Host_init_def comp_def)

lemma hosts_ok_run:
  assumes "init_sim rnd c = Inr s0" and "run_cycles rnd s0 ts = Inr s"
  shows "hosts_ok (hosts s)"
  by (rule run_cycles_induct[OF assms(2), where P = "\<lambda>s. hosts_ok (hosts s)"])
     (simp_all add: hosts_ok_init[OF assms(1)] hosts_ok_cycle)

subsection \<open>Feedback\<close>

lemma round_half_even_le: "real_of_int (round_half_even y) \<le> y + 1 / 2"
  unfolding round_half_even_def Let_def by (simp; linarith)

lemma round_half_even_ge: "y - 1 / 2 \<le> real_of_int (round_half_even y)"
  unfolding round_half_even_def Let_def by (simp; linarith)

lemma py_round_le: "py_round x n \<le> x + 1 / (2 * 10 ^ n)"
proof -
  have "py_round x n \<le> (x * 10 ^ n + 1 / 2) / 10 ^ n"
    unfolding py_round_def by (intro divide_right_mono round_half_even_le) simp
  also have "\<dots> = x + 1 / (2 * 10 ^ n)"
    by (simp add: field_simps)
  finally show ?thesis .
qed

lemma feedback_down:
  assumes "7 / 10 \<le> target_util c"
  shows "target_util (feedback b c) \<le> target_util c" and "7 / 10 \<le> target_util (feedback b c)"
proof -
  have "py_round (target_util c - 0.02) 3 \<le> target_util c - 0.02 + 1 / (2 * 10 ^ 3)"
    by (rule py_round_le)
  then have "py_round (target_util c - 0.02) 3 \<le> target_util c" by simp
  with assms show "target_util (feedback b c) \<le> target_util c"
    by (simp add: feedback_def)
  have "(7 / 10 :: real) \<le> max 0.70 (py_round (target_util c - 0.02) 3)"
    by (rule order_trans[OF _ max.cobounded1]) simp
  with assms show "7 / 10 \<le> target_util (feedback b c)"
    unfolding feedback_def by (cases b) simp_all
qed

lemma floor_run:
  assumes "7 / 10 \<le> target_util c" and "init_sim rnd c = Inr s0" and "run_cycles rnd s0 ts = Inr s"
  shows "7 / 10 \<le> target_util (cfg s)"
proof (rule run_cycles_induct[OF assms(3), where P = "\<lambda>s. 7 / 10 \<le> target_util (cfg s)"])
  show "7 / 10 \<le> target_util (cfg s0)"
    using assms(1,2) by (simp add: init_sim_cfg)
next
  fix a t b
  assume f: "7 / 10 \<le> target_util (cfg a)" and "cycle rnd a t = Inr b"
  then obtain bb where "cfg b = feedback bb (cfg a)"
    by (elim cycleE) blast
  with feedback_down(2)[OF f, of bb] show "7 / 10 \<le> target_util (cfg b)"
    by simp
qed

subsection \<open>A cycle, a summary and a run from their steps\<close>

lemma cycleI:
  assumes "update_usage rnd t (draws s) (vms s) = Inr (vs1, k)"
    and "predict_all (alpha (cfg s)) vs1 = Inr vs2"
    and "planner (cfg s) (hosts s) vs2 = Inr (p, cl, ml)"
    and "execute p vs2 = Inr vs3"
    and "shutdown (hosts s) vs3 = hs"
    and "breach (cfg s) hs vs3 = b"
  shows "cycle rnd s t =
           Inr \<lparr>hosts = hs, vms = vs3,
                total_kwh = total_kwh s + cycle_kwh hs (dt_hours (cfg s)),
                total_migrations = total_migrations s + int (length p),
                total_breaches = (if b then total_breaches s + 1 else total_breaches s),
                cfg = feedback b (cfg s), draws = k\<rparr>"
  unfolding cycle_def by (simp only: assms bind_r_Inr prod.case Let_def)

lemma simulateI:
  assumes "init_sim (gen (seed c)) c = Inr s0"
    and "run_cycles (gen (seed c)) s0 [0..cycles c - 1] = Inr s"
    and "summary s = Inr r"
  shows "simulate gen c = Inr (r, cfg s)"
  unfolding simulate_def by (simp only: assms bind_r_Inr Let_def)

lemma summaryI:
  assumes "utils_of (dict_of cpu_cap (active_hosts (hosts s)))
             (fst (loads_predicted (active_hosts (hosts s)) (vms s))) = Inr utils"
    and "util_p95 utils = Inr p95"
  shows "summary s =
           Inr \<lparr>energy_kwh_total = py_round (total_kwh s) 3,
                migrations_total = total_migrations s,
                hosts_off_final = int (length (off_hosts (hosts s))),
                util_mean_final = (if utils \<noteq> [] then py_round (mean utils) 4 else 0),
                util_p95_final = p95,
                hi_watermark_breaches = total_breaches s,
                final_target_util = py_round (target_util (cfg s)) 3\<rparr>"
  unfolding summary_def by (simp only: assms bind_r_Inr Let_def)

subsection \<open>Observation and prediction\<close>

lemma map_r_list_all2: "map_r f xs = Inr ys \<Longrightarrow> list_all2 (\<lambda>x y. f x = Inr y) xs ys"
  by (induction xs arbitrary: ys) (auto simp: bind_r_eq_Inr)

lemma predict_ema_fields:
  assumes "predict_ema vm a = Inr vm'"
  shows "v_id vm' = v_id vm" "host_id vm' = host_id vm"
    "cpu_use_hist vm' = cpu_use_hist vm" "mem_use_hist vm' = mem_use_hist vm" "ema_ok a vm'"
  using assms by (auto simp: predict_ema_def Let_def ema_ok_def split: if_splits)

lemma predict_all_props:
  assumes "predict_all a vs = Inr vs'"
  shows "map host_id vs' = map host_id vs" and "map v_id vs' = map v_id vs" and "list_all (ema_ok a) vs'"
proof -
  from assms have r: "list_all2 (\<lambda>x y. predict_ema x a = Inr y) vs vs'"
    unfolding predict_all_def by (rule map_r_list_all2)
  then have l: "length vs = length vs'"
    by (rule list_all2_lengthD)
  from r have n: "\<And>i. i < length vs \<Longrightarrow> predict_ema (vs ! i) a = Inr (vs' ! i)"
    by (simp add: list_all2_conv_all_nth)
  have f: "host_id (vs' ! i) = host_id (vs ! i) \<and> v_id (vs' ! i) = v_id (vs ! i) \<and> ema_ok a (vs' ! i)"
    if "i < length vs" for i
    using predict_ema_fields[OF n[OF that]] by simp
  show "map host_id vs' = map host_id vs"
    using l f by (simp add: list_eq_iff_nth_eq)
  show "map v_id vs' = map v_id vs"
    using l f by (simp add: list_eq_iff_nth_eq)
  show "list_all (ema_ok a) vs'"
    using l f by (simp add: list_all_length)
qed

lemma observe_fields:
  assumes "observe d vm = Inr vm'"
  shows "v_id vm' = v_id vm" "host_id vm' = host_id vm"
  using assms by (auto simp: observe_def split: if_splits)

lemma update_usage_props:
  "update_usage rnd t k vs = Inr (vs', k') \<Longrightarrow>
     map host_id vs' = map host_id vs \<and> map v_id vs' = map v_id vs \<and> k' = k + length vs"
proof (induction vs arbitrary: k vs')
  case Nil
  then show ?case by simp
next
  case (Cons vm vs)
  from Cons.prems obtain vm1 vs1 where
    o: "observe (synth_drift (rnd k) t) vm = Inr vm1"
    and u: "update_usage rnd t (Suc k) vs = Inr (vs1, k')" and e: "vs' = vm1 # vs1"
    by (auto simp: bind_r_eq_Inr)
  from Cons.IH[OF u] observe_fields[OF o] e show ?case by simp
qed

subsection \<open>Stale predictions\<close>

lemma observe_same:
  assumes "same_but_pred a b"
  shows "(\<exists>e. observe d a = Inl e \<and> observe d b = Inl e) \<or>
         (\<exists>a' b'. observe d a = Inr a' \<and> observe d b = Inr b' \<and> same_but_pred a' b')"
  using assms by (auto simp: observe_def same_but_pred_def)

lemma update_usage_same:
  "list_all2 same_but_pred as bs \<Longrightarrow>
     (\<exists>e. update_usage rnd t k as = Inl e \<and> update_usage rnd t k bs = Inl e) \<or>
     (\<exists>as' bs' k'. update_usage rnd t k as = Inr (as', k') \<and> update_usage rnd t k bs = Inr (bs', k') \<and>
                   list_all2 same_but_pred as' bs')"
proof (induction as bs arbitrary: k rule: list_all2_induct)
  case Nil
  show ?case by simp
next
  case (Cons a as b bs)
  from observe_same[OF Cons.hyps(1), of "synth_drift (rnd k) t"] show ?case
  proof
    assume "\<exists>e. observe (synth_drift (rnd k) t) a = Inl e \<and> observe (synth_drift (rnd k) t) b = Inl e"
    then show ?thesis by auto
  next
    assume "\<exists>a' b'. observe (synth_drift (rnd k) t) a = Inr a' \<and>
                    observe (synth_drift (rnd k) t) b = Inr b' \<and> same_but_pred a' b'"
    then obtain a' b' where o: "observe (synth_drift (rnd k) t) a = Inr a'"
      "observe (synth_drift (rnd k) t) b = Inr b'" "same_but_pred a' b'" by blast
    from Cons.IH[of "Suc k"] show ?thesis
    proof
      assume "\<exists>e. update_usage rnd t (Suc k) as = Inl e \<and> update_usage rnd t (Suc k) bs = Inl e"
      with o show ?thesis by auto
    next
      assume "\<exists>as' bs' k'. update_usage rnd t (Suc k) as = Inr (as', k') \<and>
                update_usage rnd t (Suc k) bs = Inr (bs', k') \<and> list_all2 same_but_pred as' bs'"
      with o show ?thesis by auto
    qed
  qed
qed

lemma predict_ema_same: "same_but_pred a b \<Longrightarrow> predict_ema a x = predict_ema b x"
  by (simp add: predict_ema_def same_but_pred_def Let_def)

lemma map_r_cong_rel:
  "list_all2 (\<lambda>x y. f x = f y) xs ys \<Longrightarrow> map_r f xs = map_r f ys"
  by (induction xs ys rule: list_all2_induct) simp_all

lemma predict_all_same: "list_all2 same_but_pred as bs \<Longrightarrow> predict_all x as = predict_all x bs"
  unfolding predict_all_def
  by (rule map_r_cong_rel) (auto elim: list_all2_mono simp: predict_ema_same)

lemma cycle_same:
  assumes "list_all2 same_but_pred vs' (vms s)"
  shows "cycle rnd (s\<lparr>vms := vs'\<rparr>) t = cycle rnd s t"
proof -
  from update_usage_same[OF assms, of rnd t "draws s"] show ?thesis
  proof
    assume "\<exists>e. update_usage rnd t (draws s) vs' = Inl e \<and> update_usage rnd t (draws s) (vms s) = Inl e"
    then show ?thesis by (auto simp: cycle_def)
  next
    assume "\<exists>as' bs' k'. update_usage rnd t (draws s) vs' = Inr (as', k') \<and>
              update_usage rnd t (draws s) (vms s) = Inr (bs', k') \<and> list_all2 same_but_pred as' bs'"
    then obtain as' bs' k' where u: "update_usage rnd t (draws s) vs' = Inr (as', k')"
      "update_usage rnd t (draws s) (vms s) = Inr (bs', k')" "list_all2 same_but_pred as' bs'"
      by blast
    from predict_all_same[OF u(3)] have "predict_all (alpha (cfg s)) as' = predict_all (alpha (cfg s)) bs'" .
    with u(1,2) show ?thesis by (simp add: cycle_def cong: if_cong)
  qed
qed

subsection \<open>Power state\<close>

lemma cycle_hosts_nth:
  assumes "cycle rnd s t = Inr s'" and "i < length (hosts s)"
  shows "hosts s' ! i =
           (if status (hosts s ! i) = ''ON'' \<and> (\<forall>vm\<in>set (vms s'). host_id vm \<noteq> h_id (hosts s ! i))
            then (hosts s ! i)\<lparr>status := ''OFF''\<rparr> else hosts s ! i)"
  using assms by (elim cycleE) (simp only: shutdown_nth)

lemma cycle_hosts_length: "cycle rnd s t = Inr s' \<Longrightarrow> length (hosts s') = length (hosts s)"
  by (elim cycleE) simp

lemma cycle_off_stays:
  assumes "cycle rnd s t = Inr s'" and "i < length (hosts s)" and "status (hosts s ! i) = ''OFF''"
  shows "status (hosts s' ! i) = ''OFF''"
  using cycle_hosts_nth[OF assms(1,2)] assms(3) by simp

lemma run_off_stays:
  "run_cycles rnd s ts = Inr s' \<Longrightarrow>
     length (hosts s') = length (hosts s) \<and>
     (\<forall>i<length (hosts s). status (hosts s ! i) = ''OFF'' \<longrightarrow> status (hosts s' ! i) = ''OFF'')"
proof (induction ts arbitrary: s)
  case Nil
  then show ?case by simp
next
  case (Cons t ts)
  from Cons.prems obtain m where m: "cycle rnd s t = Inr m" "run_cycles rnd m ts = Inr s'"
    by (auto simp: bind_r_eq_Inr)
  from Cons.IH[OF m(2)] cycle_hosts_length[OF m(1)] cycle_off_stays[OF m(1)]
  show ?case by simp
qed

subsection \<open>Placement\<close>

lemma execute_hosts:
  "execute p vs = Inr vs' \<Longrightarrow>
     host_id ` set vs' \<subseteq> host_id ` set vs \<union> (\<lambda>mv. snd (snd mv)) ` set p"
proof (induction p arbitrary: vs)
  case Nil
  then show ?case by simp
next
  case (Cons mv p)
  obtain vid src dst where mv: "mv = (vid, src, dst)"
    by (cases mv)
  define j where "j = (if vid < 0 then vid + int (length vs) else vid)"
  from Cons.prems mv have e: "execute p (vs[nat j := (vs ! nat j)\<lparr>host_id := dst\<rparr>]) = Inr vs'"
    by (simp add: Let_def j_def split: if_splits)
  have "set (vs[nat j := (vs ! nat j)\<lparr>host_id := dst\<rparr>]) \<subseteq> insert ((vs ! nat j)\<lparr>host_id := dst\<rparr>) (set vs)"
    by (rule set_update_subset_insert)
  then have "host_id ` set (vs[nat j := (vs ! nat j)\<lparr>host_id := dst\<rparr>]) \<subseteq> insert dst (host_id ` set vs)"
    by auto
  with Cons.IH[OF e] mv show ?case by auto
qed

lemma planner_dsts:
  assumes "planner c hs vs = Inr (p, cl, ml)"
  shows "(\<lambda>mv. snd (snd mv)) ` set p \<subseteq> h_id ` set (active_hosts hs)"
  using planner_moves[OF assms] by (auto simp: list_all_iff move_ok_def list_ex_iff)

lemma cycle_vm_hosts:
  assumes "cycle rnd s t = Inr s'"
  shows "host_id ` set (vms s') \<subseteq> host_id ` set (vms s) \<union> h_id ` set (active_hosts (hosts s))"
proof -
  from assms obtain vs1 k vs2 p cl ml where
    1: "update_usage rnd t (draws s) (vms s) = Inr (vs1, k)"
    and 2: "predict_all (alpha (cfg s)) vs1 = Inr vs2"
    and 3: "planner (cfg s) (hosts s) vs2 = Inr (p, cl, ml)"
    and 4: "execute p vs2 = Inr (vms s')"
    by (elim cycleE)
  from update_usage_props[OF 1] predict_all_props(1)[OF 2]
  have "map host_id vs2 = map host_id (vms s)" by simp
  then have "set (map host_id vs2) = set (map host_id (vms s))" by simp
  then have "host_id ` set vs2 = host_id ` set (vms s)" by simp
  with execute_hosts[OF 4] planner_dsts[OF 3] show ?thesis by blast
qed

lemma shutdown_keeps:
  assumes "h' \<in> set (shutdown hs vs)" and "vm \<in> set vs" and "h_id h' = host_id vm"
  shows "h' \<in> set hs"
  using assms by (auto simp: shutdown_eq split: if_splits)

lemma cycle_migrated_on:
  assumes "no_off_ref s" and "distinct (map h_id (hosts s))" and "cycle rnd s t = Inr s'"
    and "vm \<in> set (vms s')" and "h \<in> set (hosts s)" and "h_id h = host_id vm"
  shows "status h = ''ON''"
proof -
  from cycle_vm_hosts[OF assms(3)] assms(4)
  have "host_id vm \<in> host_id ` set (vms s) \<union> h_id ` set (active_hosts (hosts s))" by blast
  then show ?thesis
  proof
    assume "host_id vm \<in> host_id ` set (vms s)"
    then obtain vm0 where "vm0 \<in> set (vms s)" "host_id vm0 = host_id vm" by auto
    with assms(1,5,6) show ?thesis by (simp add: no_off_ref_def)
  next
    assume "host_id vm \<in> h_id ` set (active_hosts (hosts s))"
    then obtain h' where h': "h' \<in> set (hosts s)" "status h' = ''ON''" "h_id h' = host_id vm"
      by (auto simp: active_hosts_def)
    from h'(3) assms(6) have "h_id h' = h_id h" by simp
    with assms(2,5) h'(1) have "h' = h"
      by (simp add: distinct_map inj_on_def)
    with h' show ?thesis by simp
  qed
qed

lemma no_off_ref_cycle:
  assumes "no_off_ref s" and "distinct (map h_id (hosts s))" and "cycle rnd s t = Inr s'"
  shows "no_off_ref s'"
  unfolding no_off_ref_def
proof (intro ballI impI)
  fix vm h'
  assume vm: "vm \<in> set (vms s')" and h': "h' \<in> set (hosts s')" and eq: "h_id h' = host_id vm"
  from assms(3) have hs: "hosts s' = shutdown (hosts s) (vms s')"
    by (elim cycleE)
  from shutdown_keeps[OF h'[unfolded hs] vm eq] have "h' \<in> set (hosts s)" .
  from cycle_migrated_on[OF assms vm this eq] show "status h' = ''ON''" .
qed

lemma host_exists_cycle:
  assumes "host_exists s" and "cycle rnd s t = Inr s'"
  shows "host_exists s'"
  unfolding host_exists_def
proof
  fix vm
  assume vm: "vm \<in> set (vms s')"
  from assms(2) have "map h_id (hosts s') = map h_id (hosts s)"
    by (elim cycleE) simp
  then have "set (map h_id (hosts s')) = set (map h_id (hosts s))" by simp
  then have ids: "h_id ` set (hosts s') = h_id ` set (hosts s)" by simp
  from cycle_vm_hosts[OF assms(2)] vm
  have "host_id vm \<in> host_id ` set (vms s) \<union> h_id ` set (active_hosts (hosts s))" by blast
  then have "host_id vm \<in> h_id ` set (hosts s)"
  proof
    assume "host_id vm \<in> host_id ` set (vms s)"
    then obtain vm0 where "vm0 \<in> set (vms s)" "host_id vm0 = host_id vm" by auto
    with assms(1) obtain h where "h \<in> set (hosts s)" "h_id h = host_id vm"
      unfolding host_exists_def by metis
    then show ?thesis by (metis image_eqI)
  next
    assume "host_id vm \<in> h_id ` set (active_hosts (hosts s))"
    then show ?thesis by (auto simp: active_hosts_def)
  qed
  with ids have "host_id vm \<in> h_id ` set (hosts s')" by simp
  then show "\<exists>h\<in>set (hosts s'). h_id h = host_id vm" by auto
qed

lemma init_vms_hosts:
  "init_vms rnd c k js = Inr (vs, k') \<Longrightarrow>
     \<forall>vm\<in>set vs. n_hosts c \<noteq> 0 \<and> (\<exists>i. host_id vm = i mod n_hosts c)"
proof (induction js arbitrary: k vs)
  case Nil
  then show ?case by simp
next
  case (Cons j js)
  from Cons.prems have n: "n_hosts c \<noteq> 0"
    by (auto split: if_splits)
  with Cons.prems obtain vs1 where
    r: "init_vms rnd c (Suc k) js = Inr (vs1, k')"
    and vs: "vs = VM_init j (j mod n_hosts c) (uniform (rnd k) 10 60)
                   (bounded (uniform (rnd k) 10 60 * 0.8) 5 80) # vs1"
    by (auto simp: bind_r_eq_Inr Let_def)
  from Cons.IH[OF r] n vs show ?case
    by (auto simp: VM_init_def)
qed

lemma init_sim_vms:
  assumes "init_sim rnd c = Inr s0" and "vm \<in> set (vms s0)"
  shows "n_hosts c \<noteq> 0 \<and> (\<exists>i. host_id vm = i mod n_hosts c)"
proof -
  from assms(1) obtain vs k where "init_vms rnd c 0 [0..n_vms c - 1] = Inr (vs, k)" "vms s0 = vs"
    by (auto simp: init_sim_def bind_r_eq_Inr)
  with init_vms_hosts assms(2) show ?thesis by blast
qed

lemma no_off_ref_init: "init_sim rnd c = Inr s0 \<Longrightarrow> no_off_ref s0"
  by (auto simp: no_off_ref_def init_sim_hosts Host_init_def)

lemma host_exists_init:
  assumes "init_sim rnd c = Inr s0" and "0 \<le> n_hosts c"
  shows "host_exists s0"
  unfolding host_exists_def
proof
  fix vm
  assume "vm \<in> set (vms s0)"
  from init_sim_vms[OF assms(1) this] obtain i where
    n: "n_hosts c \<noteq> 0" and i: "host_id vm = i mod n_hosts c" by blast
  from n assms(2) have "0 < n_hosts c" by simp
  then have "0 \<le> i mod n_hosts c" "i mod n_hosts c \<le> n_hosts c - 1"
    by simp_all
  then have "Host_init (host_id vm) \<in> set (hosts s0)"
    by (simp add: init_sim_hosts[OF assms(1)] i)
  moreover have "h_id (Host_init (host_id vm)) = host_id vm"
    by (simp add: Host_init_def)
  ultimately show "\<exists>h\<in>set (hosts s0). h_id h = host_id vm" by blast
qed

lemma no_off_ref_run:
  assumes "init_sim rnd c = Inr s0" and "run_cycles rnd s0 ts = Inr s"
  shows "hosts_ok (hosts s) \<and> no_off_ref s"
proof (rule run_cycles_induct[OF assms(2), where P = "\<lambda>s. hosts_ok (hosts s) \<and> no_off_ref s"])
  show "hosts_ok (hosts s0) \<and> no_off_ref s0"
    using assms(1) by (simp add: hosts_ok_init no_off_ref_init)
next
  fix a t b
  assume a: "hosts_ok (hosts a) \<and> no_off_ref a" and c: "cycle rnd a t = Inr b"
  from a have "distinct (map h_id (hosts a))" by (simp add: hosts_ok_def)
  with a c show "hosts_ok (hosts b) \<and> no_off_ref b"
    by (blast intro: hosts_ok_cycle no_off_ref_cycle)
qed

lemma host_exists_run:
  assumes "init_sim rnd c = Inr s0" and "0 \<le> n_hosts c" and "run_cycles rnd s0 ts = Inr s"
  shows "host_exists s"
  by (rule run_cycles_induct[OF assms(3), where P = host_exists])
     (simp_all add: host_exists_init[OF assms(1,2)] host_exists_cycle)

subsection \<open>What a run leaves in the configuration\<close>

lemma cfg_inv_cycle:
  assumes "cfg_inv c s" and "cycle rnd s t = Inr s'"
  shows "cfg_inv c s'"
proof -
  from assms(2) obtain b where b: "cfg s' = feedback b (cfg s)"
    "total_breaches s' = (if b then total_breaches s + 1 else total_breaches s)"
    by (elim cycleE) blast
  from assms(1) have c: "cfg s = c\<lparr>target_util := target_util (cfg s)\<rparr>"
    by (simp add: cfg_inv_def)
  have "feedback b (cfg s) = c\<lparr>target_util := target_util (feedback b (cfg s))\<rparr>"
    by (subst (1) c) (simp add: feedback_def)
  with assms(1) b show ?thesis
    by (auto simp: cfg_inv_def feedback_def)
qed

lemma cfg_inv_run:
  assumes "init_sim rnd c = Inr s0" and "run_cycles rnd s0 ts = Inr s"
  shows "cfg_inv c s"
proof (rule run_cycles_induct[OF assms(2), where P = "cfg_inv c"])
  from assms(1) show "cfg_inv c s0"
    by (auto simp: cfg_inv_def init_sim_def bind_r_eq_Inr)
qed (rule cfg_inv_cycle)

lemma simulateE:
  assumes "simulate gen c = Inr (r, c')"
  obtains s0 s where "init_sim (gen (seed c)) c = Inr s0"
    "run_cycles (gen (seed c)) s0 [0..cycles c - 1] = Inr s" "summary s = Inr r" "c' = cfg s"
  using assms by (auto simp: simulate_def Let_def bind_r_eq_Inr)

lemma summary_fields:
  assumes "summary s = Inr r"
  shows "hi_watermark_breaches r = total_breaches s"
    and "final_target_util r = py_round (target_util (cfg s)) 3"
    and "energy_kwh_total r = py_round (total_kwh s) 3"
    and "migrations_total r = total_migrations s"
  using assms by (auto simp: summary_def Let_def bind_r_eq_Inr)

subsection \<open>The run raises only on a division by a zero host count\<close>

lemma upto_map_int: "[0..int n - 1] = map int [0..<n]"
  by (rule nth_equalityI) (simp_all add: nth_upto)

lemma init_vms_total:
  "n_hosts c \<noteq> 0 \<Longrightarrow>
     \<exists>vs k'. init_vms rnd c k js = Inr (vs, k') \<and> map v_id vs = js \<and> list_all hist2 vs"
proof (induction js arbitrary: k)
  case Nil
  show ?case by simp
next
  case (Cons j js)
  from Cons.IH[OF Cons.prems, of "Suc k"] obtain vs k' where
    "init_vms rnd c (Suc k) js = Inr (vs, k')" "map v_id vs = js" "list_all hist2 vs"
    by blast
  moreover have "hist2 (VM_init a b x y)" for a b x y
    by (simp add: hist2_def VM_init_def)
  moreover have "v_id (VM_init a b x y) = a" for a b x y
    by (simp add: VM_init_def)
  ultimately show ?case
    using Cons.prems by (simp add: Let_def)
qed

lemma init_sim_total:
  assumes "n_hosts c \<noteq> 0 \<or> n_vms c \<le> 0"
  shows "\<exists>s0. init_sim rnd c = Inr s0 \<and> vms_ok (vms s0)"
proof (cases "n_vms c \<le> 0")
  case True
  then have "[0..n_vms c - 1] = []" by simp
  then show ?thesis
    by (simp add: init_sim_def vms_ok_def)
next
  case False
  with assms have n: "n_hosts c \<noteq> 0" by simp
  from init_vms_total[OF n, of rnd 0 "[0..n_vms c - 1]"] obtain vs k' where
    v: "init_vms rnd c 0 [0..n_vms c - 1] = Inr (vs, k')" "map v_id vs = [0..n_vms c - 1]"
    "list_all hist2 vs" by blast
  from v(2) have "length vs = length [0..n_vms c - 1]"
    by (metis length_map)
  with False have l: "int (length vs) = n_vms c" by simp
  from v(2) l have "map v_id vs = map int [0..<length vs]"
    by (simp add: upto_map_int[symmetric])
  with v show ?thesis
    by (simp add: init_sim_def vms_ok_def)
qed

lemma init_sim_zero_hosts:
  assumes "n_hosts c = 0" and "0 < n_vms c"
  shows "init_sim rnd c = Inl ZeroDivisionError"
proof -
  from assms(2) have "[0..n_vms c - 1] = 0 # [1..n_vms c - 1]"
    by (simp add: upto_rec1)
  with assms(1) show ?thesis
    by (simp add: init_sim_def)
qed

lemma observe_total: "hist2 vm \<Longrightarrow> \<exists>vm'. observe d vm = Inr vm' \<and> hist2 vm'"
  by (auto simp: observe_def hist2_def)

lemma update_usage_total:
  "list_all hist2 vs \<Longrightarrow> \<exists>vs' k'. update_usage rnd t k vs = Inr (vs', k') \<and> list_all hist2 vs'"
proof (induction vs arbitrary: k)
  case Nil
  show ?case by simp
next
  case (Cons vm vs)
  from Cons.prems have "hist2 vm" "list_all hist2 vs" by simp_all
  from observe_total[OF this(1), of "synth_drift (rnd k) t"] Cons.IH[OF this(2), of "Suc k"]
  show ?case by auto
qed

lemma predict_ema_total: "hist2 vm \<Longrightarrow> \<exists>vm'. predict_ema vm a = Inr vm' \<and> hist2 vm'"
  by (auto simp: predict_ema_def hist2_def Let_def)

lemma predict_all_total:
  "list_all hist2 vs \<Longrightarrow> \<exists>vs'. predict_all a vs = Inr vs' \<and> list_all hist2 vs'"
  unfolding predict_all_def
proof (induction vs)
  case Nil
  show ?case by simp
next
  case (Cons vm vs)
  from Cons.prems have "hist2 vm" "list_all hist2 vs" by simp_all
  from predict_ema_total[OF this(1), of a] Cons.IH[OF this(2)]
  show ?case by auto
qed

lemma first_fit_total:
  "covers on cl \<Longrightarrow> covers on ml \<Longrightarrow> \<exists>r. first_fit vm on cl ml tu = Inr r"
  by (induction on) (auto simp: covers_def)

lemma covers_map_entry: "covers on d \<Longrightarrow> covers on (AList.map_entry k f d)"
  by (auto simp: covers_def list_all_iff map_of_map_entry)

lemma plan_step_total:
  assumes "covers on cl" and "covers on ml"
  shows "\<exists>p' cl' ml'. plan_step tu on (p, cl, ml) vm = Inr (p', cl', ml') \<and> covers on cl' \<and> covers on ml'"
proof -
  from first_fit_total[OF assms] obtain r where "first_fit vm on cl ml tu = Inr r" by blast
  with assms show ?thesis
    by (cases r) (simp_all add: plan_step_def covers_map_entry)
qed

lemma plan_loop_total:
  "covers on cl \<Longrightarrow> covers on ml \<Longrightarrow> \<exists>st. plan_loop tu on cs (p, cl, ml) = Inr st"
proof (induction cs arbitrary: p cl ml)
  case Nil
  show ?case by simp
next
  case (Cons vm cs)
  from plan_step_total[OF Cons.prems, of tu p vm] obtain p' cl' ml' where
    s: "plan_step tu on (p, cl, ml) vm = Inr (p', cl', ml')" "covers on cl'" "covers on ml'"
    by blast
  from Cons.IH[OF s(2,3), of p'] s(1) show ?case by simp
qed

lemma snd_fold_add_load_keys:
  "fst ` set (snd (fold add_load vs lm)) = fst ` set (snd lm)"
proof (induction vs arbitrary: lm)
  case Nil
  show ?case by simp
next
  case (Cons vm vs)
  have "fst ` set (snd (add_load vm lm)) = fst ` set (snd lm)"
    by (cases lm) (simp add: add_load_def dom_map_entry)
  with Cons.IH[of "add_load vm lm"] show ?case by simp
qed

lemma loads_cover:
  "covers (active_hosts hs) (fst (loads_predicted (active_hosts hs) vs))"
  "covers (active_hosts hs) (snd (loads_predicted (active_hosts hs) vs))"
proof -
  show "covers (active_hosts hs) (fst (loads_predicted (active_hosts hs) vs))"
    by (simp add: covers_def list_all_iff cpu_loads_lookup)
  have "fst ` set (snd (loads_predicted (active_hosts hs) vs)) =
          fst ` set (on_dict (\<lambda>h. 0 :: real) (active_hosts hs))"
    by (simp add: loads_predicted_def snd_fold_add_load_keys)
  moreover have "k \<in> fst ` set (on_dict (\<lambda>h. 0 :: real) (active_hosts hs))"
    if "k \<in> h_id ` set (active_hosts hs)" for k
    using on_dict_const[of k "active_hosts hs" "0 :: real"] that
    by (force dest: map_of_SomeD)
  ultimately show "covers (active_hosts hs) (snd (loads_predicted (active_hosts hs) vs))"
    by (simp add: covers_def list_all_iff map_of_eq_None_iff)
qed

lemma planner_total: "\<exists>st. planner c hs vs = Inr st"
proof -
  obtain cl ml where l: "loads_predicted (active_hosts hs) vs = (cl, ml)"
    by (cases "loads_predicted (active_hosts hs) vs")
  with loads_cover[of hs vs] have "covers (active_hosts hs) cl" "covers (active_hosts hs) ml"
    by simp_all
  from plan_loop_total[OF this] l show ?thesis
    by (simp add: planner_def)
qed

lemma execute_total:
  "list_all (\<lambda>mv. 0 \<le> fst mv \<and> fst mv < int (length vs)) p \<Longrightarrow>
     \<exists>vs'. execute p vs = Inr vs' \<and> map v_id vs' = map v_id vs \<and>
           map cpu_use_hist vs' = map cpu_use_hist vs \<and> map mem_use_hist vs' = map mem_use_hist vs"
proof (induction p arbitrary: vs)
  case Nil
  show ?case by simp
next
  case (Cons mv p)
  obtain vid src dst where mv: "mv = (vid, src, dst)"
    by (cases mv)
  define ws where "ws = vs[nat vid := (vs ! nat vid)\<lparr>host_id := dst\<rparr>]"
  from Cons.prems mv have r: "0 \<le> vid" "vid < int (length vs)"
    and rest: "list_all (\<lambda>mv. 0 \<le> fst mv \<and> fst mv < int (length ws)) p"
    by (simp_all add: ws_def)
  from r have n: "nat vid < length vs" by simp
  have m: "map v_id ws = map v_id vs" "map cpu_use_hist ws = map cpu_use_hist vs"
    "map mem_use_hist ws = map mem_use_hist vs"
    using n by (simp_all add: ws_def map_update list_update_same_conv)
  from Cons.IH[OF rest] obtain vs' where "execute p ws = Inr vs'" "map v_id vs' = map v_id ws"
    "map cpu_use_hist vs' = map cpu_use_hist ws" "map mem_use_hist vs' = map mem_use_hist ws"
    by blast
  with r mv m show ?case
    by (simp add: Let_def ws_def)
qed

lemma hist2_maps:
  assumes "map cpu_use_hist vs' = map cpu_use_hist vs" and "map mem_use_hist vs' = map mem_use_hist vs"
    and "list_all hist2 vs"
  shows "list_all hist2 vs'"
proof -
  from assms(1) have l: "length vs' = length vs"
    by (metis length_map)
  have "hist2 (vs' ! i)" if "i < length vs" for i
  proof -
    from assms(1) that l have "cpu_use_hist (vs' ! i) = cpu_use_hist (vs ! i)"
      by (metis nth_map)
    moreover from assms(2) that l have "mem_use_hist (vs' ! i) = mem_use_hist (vs ! i)"
      by (metis nth_map)
    moreover from assms(3) that have "hist2 (vs ! i)"
      by (simp add: list_all_length)
    ultimately show ?thesis by (simp add: hist2_def)
  qed
  with l show ?thesis by (simp add: list_all_length)
qed

lemma vms_ok_ids:
  assumes "map v_id vs = map int [0..<length vs]" and "vm \<in> set vs"
  shows "0 \<le> v_id vm \<and> v_id vm < int (length vs)"
proof -
  from assms(2) obtain i where i: "i < length vs" "vs ! i = vm"
    by (auto simp: in_set_conv_nth)
  from i(1) have "map v_id vs ! i = v_id (vs ! i)" by simp
  with assms(1) i have "v_id vm = int i" by simp
  with i(1) show ?thesis by simp
qed

lemma cycle_total:
  assumes "vms_ok (vms s)"
  shows "\<exists>s'. cycle rnd s t = Inr s' \<and> vms_ok (vms s')"
proof -
  from assms have ids: "map v_id (vms s) = map int [0..<length (vms s)]" and h: "list_all hist2 (vms s)"
    by (simp_all add: vms_ok_def)
  from update_usage_total[OF h, of rnd t "draws s"] obtain vs1 k where
    1: "update_usage rnd t (draws s) (vms s) = Inr (vs1, k)" and h1: "list_all hist2 vs1"
    by blast
  from predict_all_total[OF h1, of "alpha (cfg s)"] obtain vs2 where
    2: "predict_all (alpha (cfg s)) vs1 = Inr vs2" and h2: "list_all hist2 vs2"
    by blast
  from update_usage_props[OF 1] predict_all_props(2)[OF 2]
  have v2: "map v_id vs2 = map v_id (vms s)" by simp
  then have l2: "length vs2 = length (vms s)"
    by (metis length_map)
  with v2 ids have ids2: "map v_id vs2 = map int [0..<length vs2]" by simp
  from planner_total[of "cfg s" "hosts s" vs2] obtain p cl ml where
    3: "planner (cfg s) (hosts s) vs2 = Inr (p, cl, ml)"
    by (metis prod_cases3)
  have "list_all (\<lambda>mv. 0 \<le> fst mv \<and> fst mv < int (length vs2)) p"
    unfolding list_all_iff
  proof
    fix mv
    assume "mv \<in> set p"
    with planner_moves[OF 3] have "move_ok (active_hosts (hosts s)) (candidates (cfg s) vs2) mv"
      by (simp add: list_all_iff)
    then obtain vm where "vm \<in> set vs2" "v_id vm = fst mv"
      by (cases mv) (auto simp: move_ok_def list_ex_iff set_candidates)
    with vms_ok_ids[OF ids2] show "0 \<le> fst mv \<and> fst mv < int (length vs2)"
      by metis
  qed
  from execute_total[OF this] obtain vs3 where
    4: "execute p vs2 = Inr vs3" and m: "map v_id vs3 = map v_id vs2"
    "map cpu_use_hist vs3 = map cpu_use_hist vs2" "map mem_use_hist vs3 = map mem_use_hist vs2"
    by blast
  from m(1) have "length vs3 = length vs2"
    by (metis length_map)
  with m(1) ids2 hist2_maps[OF m(2,3) h2] have "vms_ok vs3"
    by (simp add: vms_ok_def)
  with cycleI[OF 1 2 3 4 refl refl] show ?thesis
    by simp
qed

lemma run_cycles_total:
  "vms_ok (vms s) \<Longrightarrow> \<exists>s'. run_cycles rnd s ts = Inr s'"
proof (induction ts arbitrary: s)
  case Nil
  show ?case by simp
next
  case (Cons t ts)
  from cycle_total[OF Cons.prems, of rnd t] obtain m where
    "cycle rnd s t = Inr m" "vms_ok (vms m)" by blast
  with Cons.IH[of m] show ?case by simp
qed

lemma fold_update_keys:
  "fst ` set (fold (\<lambda>h. AList.update (h_id h) (f h)) xs d) = fst ` set d \<union> h_id ` set xs"
  by (induction xs arbitrary: d) (auto simp: dom_update)

lemma utils_of_total:
  "list_all (\<lambda>kv. map_of caps (fst kv) \<noteq> None) cl \<Longrightarrow> \<exists>us. utils_of caps cl = Inr us"
proof (induction cl)
  case Nil
  show ?case by simp
next
  case (Cons kv cl)
  obtain k v where kv: "kv = (k, v)" by (cases kv)
  from Cons kv show ?case by auto
qed

lemma util_p95_total: "\<exists>p. util_p95 us = Inr p"
  by (simp add: util_p95_def quantiles_def)

lemma summary_total: "\<exists>r. summary s = Inr r"
proof -
  let ?on = "active_hosts (hosts s)"
  have "map_of (dict_of cpu_cap ?on) k \<noteq> None"
    if "(k, v) \<in> set (fst (loads_predicted ?on (vms s)))" for k v
  proof -
    from that have "map_of (fst (loads_predicted ?on (vms s))) k = Some v"
      by (simp add: cpu_loads_distinct)
    then have "k \<in> h_id ` set ?on"
      by (simp add: cpu_loads_lookup split: if_splits)
    then have "k \<in> fst ` set (dict_of cpu_cap ?on)"
      by (simp add: dict_of_def fold_update_keys)
    then show ?thesis
      by (simp add: map_of_eq_None_iff)
  qed
  then have "list_all (\<lambda>kv. map_of (dict_of cpu_cap ?on) (fst kv) \<noteq> None)
               (fst (loads_predicted ?on (vms s)))"
    by (auto simp: list_all_iff)
  from utils_of_total[OF this] obtain us where
    u: "utils_of (dict_of cpu_cap ?on) (fst (loads_predicted ?on (vms s))) = Inr us" by blast
  from util_p95_total[of us] obtain p where "util_p95 us = Inr p" by blast
  from summaryI[OF u this] show ?thesis by blast
qed

lemma simulate_total:
  assumes "n_hosts c \<noteq> 0 \<or> n_vms c \<le> 0"
  shows "\<exists>r c'. simulate gen c = Inr (r, c')"
proof -
  from init_sim_total[OF assms, of "gen (seed c)"] obtain s0 where
    i: "init_sim (gen (seed c)) c = Inr s0" "vms_ok (vms s0)" by blast
  from run_cycles_total[OF i(2), of "gen (seed c)" "[0..cycles c - 1]"] obtain s where
    r: "run_cycles (gen (seed c)) s0 [0..cycles c - 1] = Inr s" by blast
  from summary_total[of s] obtain res where "summary s = Inr res" by blast
  from simulateI[of gen c, OF i(1) r this] show ?thesis by blast
qed

lemma simulate_zero_hosts:
  "n_hosts c = 0 \<Longrightarrow> 0 < n_vms c \<Longrightarrow> simulate gen c = Inl ZeroDivisionError"
  by (simp add: simulate_def init_sim_zero_hosts)

subsection \<open>Rounded fields of the summary\<close>

lemma round_half_even_int [simp]: "round_half_even (real_of_int k) = k"
  by (simp add: round_half_even_def)

lemma py_round_idem: "py_round (py_round x n) n = py_round x n"
  by (simp add: py_round_def)

lemma py_round_zero [simp]: "py_round 0 n = 0"
  by (simp add: py_round_def round_half_even_def)

lemma util_p95_rounded: "20 \<le> length us \<Longrightarrow> util_p95 us = Inr p \<Longrightarrow> py_round p 4 = p"
  by (auto simp: util_p95_def bind_r_eq_Inr py_round_idem)

lemma summary_rounded:
  assumes "summary s = Inr r"
  shows "py_round (energy_kwh_total r) 3 = energy_kwh_total r"
    and "py_round (final_target_util r) 3 = final_target_util r"
    and "py_round (util_mean_final r) 4 = util_mean_final r"
  using assms by (auto simp: summary_def Let_def bind_r_eq_Inr py_round_idem)

subsection \<open>One host with twenty VMs breaches in the first cycle, whatever the draws\<close>

lemma init_vms_on_host0:
  assumes "\<And>j. 0 \<le> rnd j" and "n_hosts c = 1"
  shows "init_vms rnd c k js = Inr (vs, k') \<Longrightarrow> list_all on_host0 vs \<and> length vs = length js"
proof (induction js arbitrary: k vs)
  case Nil
  then show ?case by simp
next
  case (Cons j js)
  from Cons.prems assms(2) obtain vs1 where
    r: "init_vms rnd c (Suc k) js = Inr (vs1, k')"
    and vs: "vs = VM_init j (j mod 1) (uniform (rnd k) 10 60)
                   (bounded (uniform (rnd k) 10 60 * 0.8) 5 80) # vs1"
    by (auto simp: bind_r_eq_Inr Let_def)
  have "10 \<le> uniform (rnd k) 10 60"
    using assms(1)[of k] by (simp add: uniform_def)
  then have "on_host0 (VM_init j (j mod 1) (uniform (rnd k) 10 60)
                   (bounded (uniform (rnd k) 10 60 * 0.8) 5 80))"
    by (simp add: on_host0_def VM_init_def)
  with Cons.IH[OF r] vs show ?case by simp
qed

lemma refresh_lower:
  assumes "on_host0 a" and "- 8 \<le> d" and "observe d a = Inr b" and "predict_ema b (3 / 5) = Inr b'"
  shows "host_id b' = 0 \<and> 26 / 5 \<le> pred_cpu b'"
proof -
  define h where "h = cpu_use_hist a"
  define new where "new = bounded (last h + d) 0 100"
  from assms(1) have h: "h \<noteq> []" "10 \<le> last h" and a0: "host_id a = 0"
    by (simp_all add: on_host0_def h_def)
  from assms(3) have b: "cpu_use_hist b = h @ [new]" "host_id b = host_id a"
    by (auto simp: observe_def h_def new_def split: if_splits)
  from h(2) assms(2) have new: "2 \<le> new"
    by (simp add: new_def bounded_def)
  from h(1) have prev: "(h @ [new]) ! (length (h @ [new]) - 2) = last h"
    by (simp add: nth_append last_conv_nth)
  from assms(4) b prev have "pred_cpu b' = 3 / 5 * new + (1 - 3 / 5) * last h" "host_id b' = host_id b"
    by (auto simp: predict_ema_def Let_def split: if_splits)
  with new h(2) b(2) a0 show ?thesis by simp
qed

lemma update_usage_all2:
  "update_usage rnd t k vs = Inr (vs', k') \<Longrightarrow>
     list_all2 (\<lambda>a b. \<exists>j. observe (synth_drift (rnd j) t) a = Inr b) vs vs'"
proof (induction vs arbitrary: k vs')
  case Nil
  then show ?case by simp
next
  case (Cons vm vs)
  from Cons.prems obtain vm1 vs1 where
    o: "observe (synth_drift (rnd k) t) vm = Inr vm1"
    and u: "update_usage rnd t (Suc k) vs = Inr (vs1, k')" and e: "vs' = vm1 # vs1"
    by (auto simp: bind_r_eq_Inr)
  from Cons.IH[OF u] o e show ?case by auto
qed

lemma synth_drift_zero_lower: "0 \<le> u \<Longrightarrow> - 8 \<le> synth_drift u 0"
  by (simp add: synth_drift_def uniform_def)

lemma refresh_all_lower:
  assumes "\<And>j. 0 \<le> rnd j" and "list_all on_host0 vs"
    and "update_usage rnd 0 k vs = Inr (vs1, k')" and "predict_all (3 / 5) vs1 = Inr vs2"
  shows "length vs2 = length vs \<and> list_all (\<lambda>vm. host_id vm = 0 \<and> 26 / 5 \<le> pred_cpu vm) vs2"
proof -
  from update_usage_all2[OF assms(3)]
  have 1: "list_all2 (\<lambda>a b. \<exists>j. observe (synth_drift (rnd j) 0) a = Inr b) vs vs1" .
  from assms(4) have 2: "list_all2 (\<lambda>b b'. predict_ema b (3 / 5) = Inr b') vs1 vs2"
    unfolding predict_all_def by (rule map_r_list_all2)
  from 1 2 have l: "length vs1 = length vs" "length vs2 = length vs"
    by (simp_all add: list_all2_lengthD)
  have "host_id (vs2 ! i) = 0 \<and> 26 / 5 \<le> pred_cpu (vs2 ! i)" if i: "i < length vs" for i
  proof -
    from 1 i obtain j where o: "observe (synth_drift (rnd j) 0) (vs ! i) = Inr (vs1 ! i)"
      by (auto simp: list_all2_conv_all_nth)
    from 2 i l have p: "predict_ema (vs1 ! i) (3 / 5) = Inr (vs2 ! i)"
      by (simp add: list_all2_conv_all_nth)
    from assms(2) i have q: "on_host0 (vs ! i)"
      by (simp add: list_all_length)
    from refresh_lower[OF q synth_drift_zero_lower[OF assms(1)] o p] show ?thesis .
  qed
  with l show ?thesis by (simp add: list_all_length)
qed

lemma execute_preds: "execute p vs = Inr vs' \<Longrightarrow> map pred_cpu vs' = map pred_cpu vs"
proof (induction p arbitrary: vs)
  case Nil
  then show ?case by simp
next
  case (Cons mv p)
  obtain vid src dst where mv: "mv = (vid, src, dst)"
    by (cases mv)
  define j where "j = (if vid < 0 then vid + int (length vs) else vid)"
  from Cons.prems mv have e: "execute p (vs[nat j := (vs ! nat j)\<lparr>host_id := dst\<rparr>]) = Inr vs'"
    and r: "0 \<le> j" "j < int (length vs)"
    by (simp_all add: Let_def j_def split: if_splits)
  from r have "nat j < length vs" by simp
  then have "map pred_cpu (vs[nat j := (vs ! nat j)\<lparr>host_id := dst\<rparr>]) = map pred_cpu vs"
    by (simp add: map_update list_update_same_conv)
  with Cons.IH[OF e] show ?case by simp
qed

lemma sum_list_lower: "list_all (\<lambda>x. c \<le> x) xs \<Longrightarrow> c * real (length xs) \<le> sum_list xs"
  by (induction xs) (simp_all add: algebra_simps)

lemma crowded_cycle:
  assumes rnd: "\<And>j. 0 \<le> rnd j" and c: "crowded (cfg s)"
    and hs: "hosts s = [Host_init 0]" and vs: "list_all on_host0 (vms s)" "length (vms s) = 20"
    and cy: "cycle rnd s 0 = Inr s'"
  shows "cfg s' = feedback True (cfg s) \<and> total_breaches s' = total_breaches s + 1"
proof -
  from cy obtain vs1 k vs2 p cl ml where
    1: "update_usage rnd 0 (draws s) (vms s) = Inr (vs1, k)"
    and 2: "predict_all (alpha (cfg s)) vs1 = Inr vs2"
    and 3: "planner (cfg s) (hosts s) vs2 = Inr (p, cl, ml)"
    and 4: "execute p vs2 = Inr (vms s')"
    and 5: "hosts s' = shutdown (hosts s) (vms s')"
    and 6: "total_breaches s' = (if breach (cfg s) (hosts s') (vms s') then total_breaches s + 1 else total_breaches s)"
    and 7: "cfg s' = feedback (breach (cfg s) (hosts s') (vms s')) (cfg s)"
    by (elim cycleE)
  from c have a: "alpha (cfg s) = 3 / 5" and w: "hi_watermark (cfg s) = 9 / 10"
    by (simp_all add: crowded_def)
  from refresh_all_lower[OF rnd vs(1) 1 2[unfolded a]] vs(2)
  have l2: "length vs2 = 20" and q2: "list_all (\<lambda>vm. host_id vm = 0 \<and> 26 / 5 \<le> pred_cpu vm) vs2"
    by simp_all
  from execute_preds[OF 4] have pm: "map pred_cpu (vms s') = map pred_cpu vs2" .
  then have l3: "length (vms s') = 20"
    using l2 by (metis length_map)
  from q2 have "list_all (\<lambda>x. 26 / 5 \<le> x) (map pred_cpu vs2)"
    by (simp add: list_all_iff)
  from sum_list_lower[OF this] l2 have s2: "104 \<le> sum_list (map pred_cpu vs2)"
    by simp
  have ids: "h_id ` set (active_hosts (hosts s)) = {0}"
    by (simp add: hs active_hosts_def Host_init_def)
  from q2 have "host_id ` set vs2 \<subseteq> {0}"
    by (auto simp: list_all_iff)
  with execute_hosts[OF 4] planner_dsts[OF 3] ids have h3: "host_id ` set (vms s') \<subseteq> {0}"
    by blast
  then have f: "filter (\<lambda>vm. host_id vm = 0) (vms s') = vms s'"
    by (auto simp: filter_id_conv)
  from l3 obtain vm where vm: "vm \<in> set (vms s')"
    by (cases "vms s'") auto
  with h3 have "host_id vm = 0" by auto
  with vm 5 have hs': "hosts s' = [Host_init 0]"
    by (auto simp: hs shutdown_eq Host_init_def)
  have "host_load (vms s') 0 = sum_list (map pred_cpu vs2)"
    by (simp add: host_load_def f pm)
  with s2 have "104 \<le> host_load (vms s') 0" by simp
  then have "breach (cfg s) (hosts s') (vms s')"
    by (simp add: breach_iff hs' w Host_init_def)
  with 6 7 show ?thesis by simp
qed

lemma crowded_simulate:
  assumes rnd: "\<And>j. 0 \<le> gen (seed c) j" and c: "crowded c"
  shows "\<exists>r. simulate gen c = Inr (r, feedback True c) \<and> hi_watermark_breaches r = 1 \<and>
             final_target_util r = py_round (target_util (feedback True c)) 3"
proof -
  from c have n: "n_hosts c = 1" "n_vms c = 20" "cycles c = 1"
    by (simp_all add: crowded_def)
  from n(1) have "n_hosts c \<noteq> 0 \<or> n_vms c \<le> 0" by simp
  from init_sim_total[OF this, of "gen (seed c)"] obtain s0 where
    i: "init_sim (gen (seed c)) c = Inr s0" "vms_ok (vms s0)" by blast
  from i(1) obtain vs k where iv: "init_vms (gen (seed c)) c 0 [0..n_vms c - 1] = Inr (vs, k)"
    and s0: "vms s0 = vs" "total_breaches s0 = 0"
    by (auto simp: init_sim_def bind_r_eq_Inr)
  from init_vms_on_host0[OF rnd n(1) iv] n(2) s0(1)
  have q: "list_all on_host0 (vms s0)" "length (vms s0) = 20"
    by simp_all
  have hs: "hosts s0 = [Host_init 0]"
    by (simp add: init_sim_hosts[OF i(1)] n(1))
  have cf: "cfg s0 = c"
    by (rule init_sim_cfg[OF i(1)])
  from cycle_total[OF i(2), of "gen (seed c)" 0] obtain s1 where
    cy: "cycle (gen (seed c)) s0 0 = Inr s1" by blast
  from crowded_cycle[OF rnd c[folded cf] hs q cy] cf s0(2)
  have s1: "cfg s1 = feedback True c" "total_breaches s1 = 1"
    by simp_all
  from n(3) cy have r: "run_cycles (gen (seed c)) s0 [0..cycles c - 1] = Inr s1"
    by simp
  from summary_total[of s1] obtain res where res: "summary s1 = Inr res" by blast
  from simulateI[of gen c, OF i(1) r res] summary_fields(1,2)[OF res] s1 show ?thesis
    by simp
qed

lemma crowded_feedback: "crowded c \<Longrightarrow> crowded (feedback b c)"
  by (simp add: crowded_def feedback_def)

lemma seed_feedback: "seed (feedback b c) = seed c"
  by (simp add: feedback_def)

lemma crowded_rerun:
  assumes rnd: "\<And>j. 0 \<le> gen (seed c) j" and c: "crowded c" and t: "target_util c = 4 / 5"
  shows "\<exists>r1 r2. run_twice gen c = Inr (r1, r2) \<and>
                 final_target_util r1 = 39 / 50 \<and> final_target_util r2 = 19 / 25"
proof -
  have t1: "target_util (feedback True c) = 39 / 50"
    by (simp add: feedback_def t py_round_def round_half_even_def)
  then have t2: "target_util (feedback True (feedback True c)) = 19 / 25"
    by (simp add: feedback_def py_round_def round_half_even_def)
  from crowded_simulate[of gen c, OF rnd c] obtain r1 where
    1: "simulate gen c = Inr (r1, feedback True c)"
    "final_target_util r1 = py_round (target_util (feedback True c)) 3" by blast
  from crowded_simulate[of gen "feedback True c"] rnd crowded_feedback[OF c] obtain r2 where
    2: "simulate gen (feedback True c) = Inr (r2, feedback True (feedback True c))"
    "final_target_util r2 = py_round (target_util (feedback True (feedback True c))) 3"
    by (auto simp: seed_feedback)
  have "run_twice gen c = Inr (r1, r2)"
    by (simp add: run_twice_def 1(1) 2(1))
  moreover have "final_target_util r1 = 39 / 50"
    by (simp add: 1(2) t1 py_round_def round_half_even_def)
  moreover have "final_target_util r2 = 19 / 25"
    by (simp add: 2(2) t2 py_round_def round_half_even_def)
  ultimately show ?thesis by blast
qed

lemma crowded_raises:
  assumes rnd: "\<And>j. 0 \<le> gen (seed c) j" and c: "crowded c" and t: "target_util c = 1 / 2"
  shows "\<exists>r c'. simulate gen c = Inr (r, c') \<and> target_util c' = 7 / 10 \<and> final_target_util r = 7 / 10"
proof -
  have t1: "target_util (feedback True c) = 7 / 10"
    by (simp add: feedback_def t py_round_def round_half_even_def)
  from crowded_simulate[of gen c, OF rnd c] obtain r where
    1: "simulate gen c = Inr (r, feedback True c)"
    "final_target_util r = py_round (target_util (feedback True c)) 3" by blast
  have "final_target_util r = 7 / 10"
    by (simp add: 1(2) t1 py_round_def round_half_even_def)
  with 1(1) t1 show ?thesis by blast
qed

section \<open>Evaluation of the example runs\<close>

subsection \<open>Example A, cycle 0\<close>

lemma exA_init: "init_sim (gen_half 7) exA_cfg = Inr exA_s0"
  by (simp add: exA_cfg_def exA_s0_def exA_hosts_def gen_half_def init_sim_def uniform_def
      bounded_def upto_rec1)

lemma exA_usage:
  "update_usage (gen_half 7) 0 (draws exA_s0) (vms exA_s0) = Inr ([exA_vm 0 0, exA_vm 1 1], 4)"
  by (simp add: exA_s0_def gen_half_def exA_vm_def observe_def synth_drift_def uniform_def
      bounded_def VM_init_def)

lemma exA_predict:
  "predict_all (alpha (cfg exA_s0)) [exA_vm 0 0, exA_vm 1 1] = Inr [exA_vm 0 0, exA_vm 1 1]"
  by (simp add: exA_s0_def exA_cfg_def exA_vm_def predict_all_def predict_ema_def)

lemma exA_active: "active_hosts exA_hosts = exA_hosts"
  by (simp add: exA_hosts_def active_hosts_def Host_init_def)

lemma exA_loads:
  "loads_predicted exA_hosts [exA_vm 0 0, exA_vm 1 1] = ([(0, 35), (1, 35)], [(0, 28), (1, 28)])"
  by (simp add: exA_hosts_def exA_vm_def loads_predicted_def on_dict_def dict_of_def add_load_def Host_init_def)

lemma exA_candidates: "candidates exA_cfg [exA_vm 0 0, exA_vm 1 1] = [exA_vm 0 0, exA_vm 1 1]"
  by (simp add: exA_cfg_def exA_vm_def candidates_def)

lemma exA_step0:
  "plan_step (target_util exA_cfg) exA_hosts ([], [(0, 35), (1, 35)], [(0, 28), (1, 28)]) (exA_vm 0 0) =
     Inr ([], [(0, 35), (1, 35)], [(0, 28), (1, 28)])"
  by (simp add: exA_cfg_def exA_hosts_def exA_vm_def plan_step_def Host_init_def)

lemma exA_step1:
  "plan_step (target_util exA_cfg) exA_hosts ([], [(0, 35), (1, 35)], [(0, 28), (1, 28)]) (exA_vm 1 1) =
     Inr ([(1, 1, 0)], [(0, 70), (1, 35)], [(0, 56), (1, 28)])"
  by (simp add: exA_cfg_def exA_hosts_def exA_vm_def plan_step_def Host_init_def)

lemma exA_planner:
  "planner (cfg exA_s0) (hosts exA_s0) [exA_vm 0 0, exA_vm 1 1] =
     Inr ([(1, 1, 0)], [(0, 70), (1, 35)], [(0, 56), (1, 28)])"
proof -
  have "cfg exA_s0 = exA_cfg" "hosts exA_s0 = exA_hosts"
    by (simp_all add: exA_s0_def)
  then show ?thesis
    by (simp add: planner_def exA_active exA_loads exA_candidates exA_step0 exA_step1)
qed

lemma exA_execute: "execute [(1, 1, 0)] [exA_vm 0 0, exA_vm 1 1] = Inr [exA_vm 0 0, exA_vm 1 0]"
  by (simp add: exA_vm_def)

lemma exA_shutdown:
  "shutdown (hosts exA_s0) [exA_vm 0 0, exA_vm 1 0] = [Host_init 0, (Host_init 1)\<lparr>status := ''OFF''\<rparr>]"
  by (simp add: exA_s0_def shutdown_eq exA_hosts_def exA_vm_def Host_init_def)

lemma exA_breach:
  "breach (cfg exA_s0) [Host_init 0, (Host_init 1)\<lparr>status := ''OFF''\<rparr>] [exA_vm 0 0, exA_vm 1 0] = False"
  by (simp add: exA_s0_def breach_iff host_load_def exA_cfg_def exA_vm_def Host_init_def)

lemma exA_cycle: "cycle (gen_half 7) exA_s0 0 = Inr exA_s1"
  unfolding cycleI[OF exA_usage exA_predict exA_planner exA_execute exA_shutdown exA_breach]
  by (simp add: exA_s0_def exA_s1_def exA_cfg_def cycle_kwh_alt Host_init_def feedback_def)

lemma exA_run: "run_cycles (gen_half 7) exA_s0 [0] = Inr exA_s1"
  by (simp add: exA_cycle)

subsection \<open>Example B\<close>

lemma exB_init: "init_sim (gen_half 7) (exB_cfg tu) = Inr (exB_s0 tu)"
  by (simp add: exB_cfg_def exB_s0_def gen_half_def init_sim_def uniform_def
      bounded_def upto_rec1)

lemma exB_usage:
  "update_usage (gen_half 7) 0 (draws (exB_s0 tu)) (vms (exB_s0 tu)) = Inr (exB_vms, 6)"
  by (simp add: exB_s0_def exB_vms_def gen_half_def exA_vm_def observe_def synth_drift_def uniform_def
      bounded_def VM_init_def)

lemma exB_predict: "predict_all (alpha (cfg (exB_s0 tu))) exB_vms = Inr exB_vms"
  by (simp add: exB_s0_def exB_cfg_def exB_vms_def exA_vm_def predict_all_def predict_ema_def)

lemma exB_planner:
  "planner (cfg (exB_s0 tu)) (hosts (exB_s0 tu)) exB_vms = Inr ([], [(0, 105)], [(0, 84)])"
  by (simp add: planner_def exB_s0_def exB_cfg_def exB_vms_def exA_vm_def candidates_def
      active_hosts_def loads_predicted_def on_dict_def dict_of_def add_load_def Host_init_def)

lemma exB_execute: "execute [] exB_vms = Inr exB_vms"
  by simp

lemma exB_shutdown: "shutdown (hosts (exB_s0 tu)) exB_vms = [Host_init 0]"
  by (simp add: exB_s0_def shutdown_eq exB_vms_def exA_vm_def Host_init_def)

lemma exB_breach: "breach (cfg (exB_s0 tu)) [Host_init 0] exB_vms = True"
  by (simp add: exB_s0_def breach_iff host_load_def exB_cfg_def exB_vms_def exA_vm_def Host_init_def)

lemma py_round_78: "max (7 / 10) (py_round (39 / 50) 3) = 39 / 50"
  by (simp add: py_round_def round_half_even_def)

lemma py_round_76: "max (7 / 10) (py_round (19 / 25) 3) = 19 / 25"
  by (simp add: py_round_def round_half_even_def)

lemma exB_cycle_80: "cycle (gen_half 7) (exB_s0 (4 / 5)) 0 = Inr (exB_s1 (39 / 50))"
  unfolding cycleI[OF exB_usage exB_predict exB_planner exB_execute exB_shutdown exB_breach]
  by (simp add: exB_s0_def exB_s1_def exB_cfg_def cycle_kwh_alt Host_init_def feedback_def py_round_78)

lemma exB_cycle_78: "cycle (gen_half 7) (exB_s0 (39 / 50)) 0 = Inr (exB_s1 (19 / 25))"
  unfolding cycleI[OF exB_usage exB_predict exB_planner exB_execute exB_shutdown exB_breach]
  by (simp add: exB_s0_def exB_s1_def exB_cfg_def cycle_kwh_alt Host_init_def feedback_def py_round_76)

lemma exB_utils:
  "utils_of (dict_of cpu_cap (active_hosts (hosts (exB_s1 tu))))
     (fst (loads_predicted (active_hosts (hosts (exB_s1 tu))) (vms (exB_s1 tu)))) = Inr [21 / 20]"
  by (simp add: exB_s1_def active_hosts_def loads_predicted_def on_dict_def dict_of_def add_load_def exB_vms_def
      exA_vm_def Host_init_def)

lemma exB_p95: "util_p95 [21 / 20] = Inr (21 / 20)"
  by (simp add: util_p95_def)

lemma exB_summary_80: "summary (exB_s1 (39 / 50)) = Inr (exB_summary (39 / 50))"
  unfolding summaryI[OF exB_utils exB_p95]
  by (simp add: exB_s1_def off_hosts_def Host_init_def mean_def exB_summary_def exB_cfg_def
      py_round_def round_half_even_def)

lemma exB_summary_78: "summary (exB_s1 (19 / 25)) = Inr (exB_summary (19 / 25))"
  unfolding summaryI[OF exB_utils exB_p95]
  by (simp add: exB_s1_def off_hosts_def Host_init_def mean_def exB_summary_def exB_cfg_def
      py_round_def round_half_even_def)

lemma exB_simulate_80: "simulate gen_half (exB_cfg (4 / 5)) = Inr (exB_summary (39 / 50), exB_cfg (39 / 50))"
proof -
  have s: "seed (exB_cfg (4 / 5)) = 7" "[0..cycles (exB_cfg (4 / 5)) - 1] = [0]"
    by (simp_all add: exB_cfg_def upto_rec1)
  have "simulate gen_half (exB_cfg (4 / 5)) = Inr (exB_summary (39 / 50), cfg (exB_s1 (39 / 50)))"
    by (rule simulateI[where ?s0.0 = "exB_s0 (4 / 5)"]) (simp_all add: s exB_init exB_cycle_80 exB_summary_80)
  then show ?thesis by (simp add: exB_s1_def)
qed

lemma exB_simulate_78: "simulate gen_half (exB_cfg (39 / 50)) = Inr (exB_summary (19 / 25), exB_cfg (19 / 25))"
proof -
  have s: "seed (exB_cfg (39 / 50)) = 7" "[0..cycles (exB_cfg (39 / 50)) - 1] = [0]"
    by (simp_all add: exB_cfg_def upto_rec1)
  have "simulate gen_half (exB_cfg (39 / 50)) = Inr (exB_summary (19 / 25), cfg (exB_s1 (19 / 25)))"
    by (rule simulateI[where ?s0.0 = "exB_s0 (39 / 50)"]) (simp_all add: s exB_init exB_cycle_78 exB_summary_78)
  then show ?thesis by (simp add: exB_s1_def)
qed

subsection \<open>Example A, summary and a later cycle\<close>

lemma exA_utils:
  "utils_of (dict_of cpu_cap (active_hosts (hosts exA_s1)))
     (fst (loads_predicted (active_hosts (hosts exA_s1)) (vms exA_s1))) = Inr [7 / 10]"
  by (simp add: exA_s1_def active_hosts_def loads_predicted_def on_dict_def dict_of_def add_load_def
      exA_vm_def Host_init_def)

lemma exA_p95: "util_p95 [7 / 10] = Inr (7 / 10)"
  by (simp add: util_p95_def)

lemma exA_summary: "summary exA_s1 = Inr exA_summary"
  unfolding summaryI[OF exA_utils exA_p95]
  by (simp add: exA_s1_def off_hosts_def Host_init_def mean_def exA_summary_def exA_cfg_def
      py_round_def round_half_even_def)

lemma exA_simulate: "simulate gen_half exA_cfg = Inr (exA_summary, exA_cfg)"
proof -
  have s: "seed exA_cfg = 7" "[0..cycles exA_cfg - 1] = [0]"
    by (simp_all add: exA_cfg_def upto_rec1)
  have "simulate gen_half exA_cfg = Inr (exA_summary, cfg exA_s1)"
    by (rule simulateI[where ?s0.0 = exA_s0]) (simp_all add: s exA_init exA_cycle exA_summary)
  then show ?thesis by (simp add: exA_s1_def)
qed

lemma exA2_usage:
  "update_usage (gen_half 7) 24 (draws exA_s1) (vms exA_s1) = Inr ([exA_vm4 0, exA_vm4 1], 6)"
  by (simp add: exA_s1_def gen_half_def exA_vm_def exA_vm4_def observe_def synth_drift_def uniform_def
      bounded_def)

lemma exA2_predict:
  "predict_all (alpha (cfg exA_s1)) [exA_vm4 0, exA_vm4 1] = Inr [exA_vm4 0, exA_vm4 1]"
  by (simp add: exA_s1_def exA_cfg_def exA_vm4_def predict_all_def predict_ema_def)

lemma exA2_planner:
  "planner (cfg exA_s1) (hosts exA_s1) [exA_vm4 0, exA_vm4 1] = Inr ([], [(0, 70)], [(0, 56)])"
  by (simp add: planner_def exA_s1_def exA_cfg_def exA_vm4_def candidates_def plan_step_def
      active_hosts_def loads_predicted_def on_dict_def dict_of_def add_load_def Host_init_def)

lemma exA2_execute: "execute [] [exA_vm4 0, exA_vm4 1] = Inr [exA_vm4 0, exA_vm4 1]"
  by simp

lemma exA2_shutdown:
  "shutdown (hosts exA_s1) [exA_vm4 0, exA_vm4 1] = [Host_init 0, (Host_init 1)\<lparr>status := ''OFF''\<rparr>]"
  by (simp add: exA_s1_def shutdown_eq exA_vm4_def Host_init_def)

lemma exA2_breach:
  "breach (cfg exA_s1) [Host_init 0, (Host_init 1)\<lparr>status := ''OFF''\<rparr>] [exA_vm4 0, exA_vm4 1] = False"
  by (simp add: exA_s1_def breach_iff host_load_def exA_cfg_def exA_vm4_def Host_init_def)

lemma exA2_cycle: "cycle (gen_half 7) exA_s1 24 = Inr exA_s2"
  unfolding cycleI[OF exA2_usage exA2_predict exA2_planner exA2_execute exA2_shutdown exA2_breach]
  by (simp add: exA_s1_def exA_s2_def exA_cfg_def cycle_kwh_alt Host_init_def feedback_def)

lemma exA2_run: "run_cycles (gen_half 7) exA_s1 [24] = Inr exA_s2"
  by (simp add: exA2_cycle)

subsection \<open>Example C\<close>

lemma exC_init: "init_sim (gen_rise 7) exC_cfg = Inr exC_s0"
  by (simp add: exC_cfg_def exC_s0_def gen_rise_def init_sim_def uniform_def
      bounded_def upto_rec1)

lemma exC_usage:
  "update_usage (gen_rise 7) 0 (draws exC_s0) (vms exC_s0) = Inr ([exC_vm1 0, exC_vm1 1, exC_vm1 2], 6)"
  by (simp add: exC_s0_def gen_rise_def exC_vm1_def observe_def synth_drift_def uniform_def
      bounded_def VM_init_def)

lemma exC_predict:
  "predict_all (alpha (cfg exC_s0)) [exC_vm1 0, exC_vm1 1, exC_vm1 2] = Inr [exC_vm1 0, exC_vm1 1, exC_vm1 2]"
  by (simp add: exC_s0_def exC_cfg_def exC_vm1_def predict_all_def predict_ema_def)

lemma exC_planner:
  "planner (cfg exC_s0) (hosts exC_s0) [exC_vm1 0, exC_vm1 1, exC_vm1 2] = Inr ([], [(0, 87)], [(0, 69.6)])"
  by (simp add: planner_def exC_s0_def exC_cfg_def exC_vm1_def candidates_def plan_step_def
      active_hosts_def loads_predicted_def on_dict_def dict_of_def add_load_def Host_init_def)

lemma exC_execute: "execute [] [exC_vm1 0, exC_vm1 1, exC_vm1 2] = Inr [exC_vm1 0, exC_vm1 1, exC_vm1 2]"
  by simp

lemma exC_shutdown: "shutdown (hosts exC_s0) [exC_vm1 0, exC_vm1 1, exC_vm1 2] = [Host_init 0]"
  by (simp add: exC_s0_def shutdown_eq exC_vm1_def Host_init_def)

lemma exC_breach: "breach (cfg exC_s0) [Host_init 0] [exC_vm1 0, exC_vm1 1, exC_vm1 2] = False"
  by (simp add: exC_s0_def breach_iff host_load_def exC_cfg_def exC_vm1_def Host_init_def)

lemma exC_cycle0: "cycle (gen_rise 7) exC_s0 0 = Inr exC_s1"
  unfolding cycleI[OF exC_usage exC_predict exC_planner exC_execute exC_shutdown exC_breach]
  by (simp add: exC_s0_def exC_s1_def exC_cfg_def cycle_kwh_alt Host_init_def feedback_def)

text \<open>In cycle 1 the sine term of the drift is \<open>sin (pi / 12)\<close>; that it is not negative is enough.\<close>

lemma exC_drift: "7 \<le> synth_drift (15 / 16) 1"
proof -
  have "0 \<le> sin (pi / 12)"
    by (rule sin_ge_zero) simp_all
  then show ?thesis
    by (simp add: synth_drift_def uniform_def)
qed

lemma exC_cpu_lower: "36 \<le> exC_cpu"
  using exC_drift by (simp add: exC_cpu_def bounded_def)

lemma exC2_usage:
  "update_usage (gen_rise 7) 1 (draws exC_s1) (vms exC_s1) =
     Inr ([(exC_vm2 0)\<lparr>pred_cpu := 29, pred_mem := 23.2\<rparr>, (exC_vm2 1)\<lparr>pred_cpu := 29, pred_mem := 23.2\<rparr>,
           (exC_vm2 2)\<lparr>pred_cpu := 29, pred_mem := 23.2\<rparr>], 9)"
  by (simp add: exC_s1_def gen_rise_def exC_vm1_def exC_vm2_def exC_cpu_def exC_mem_def observe_def)

lemma exC2_predict:
  "predict_all (alpha (cfg exC_s1))
     [(exC_vm2 0)\<lparr>pred_cpu := 29, pred_mem := 23.2\<rparr>, (exC_vm2 1)\<lparr>pred_cpu := 29, pred_mem := 23.2\<rparr>,
      (exC_vm2 2)\<lparr>pred_cpu := 29, pred_mem := 23.2\<rparr>] =
   Inr [exC_vm2 0, exC_vm2 1, exC_vm2 2]"
  by (simp add: exC_s1_def exC_cfg_def exC_vm2_def predict_all_def predict_ema_def)

lemma exC2_candidates: "candidates (cfg exC_s1) [exC_vm2 0, exC_vm2 1, exC_vm2 2] = []"
  using exC_cpu_lower by (simp add: candidates_def exC_s1_def exC_cfg_def exC_vm2_def)

lemma exC2_planner:
  "planner (cfg exC_s1) (hosts exC_s1) [exC_vm2 0, exC_vm2 1, exC_vm2 2] =
     Inr ([], fst (loads_predicted (active_hosts (hosts exC_s1)) [exC_vm2 0, exC_vm2 1, exC_vm2 2]),
              snd (loads_predicted (active_hosts (hosts exC_s1)) [exC_vm2 0, exC_vm2 1, exC_vm2 2]))"
  by (simp add: planner_def exC2_candidates)

lemma exC2_execute: "execute [] [exC_vm2 0, exC_vm2 1, exC_vm2 2] = Inr [exC_vm2 0, exC_vm2 1, exC_vm2 2]"
  by simp

lemma exC2_shutdown: "shutdown (hosts exC_s1) [exC_vm2 0, exC_vm2 1, exC_vm2 2] = [Host_init 0]"
  by (simp add: exC_s1_def shutdown_eq exC_vm2_def Host_init_def)

lemma exC2_breach: "breach (cfg exC_s1) [Host_init 0] [exC_vm2 0, exC_vm2 1, exC_vm2 2] = True"
  using exC_cpu_lower
  by (simp add: exC_s1_def breach_iff host_load_def exC_cfg_def exC_vm2_def Host_init_def)

lemma exC_cycle1: "cycle (gen_rise 7) exC_s1 1 = Inr exC_s2"
  unfolding cycleI[OF exC2_usage exC2_predict exC2_planner exC2_execute exC2_shutdown exC2_breach]
  by (simp add: exC_s1_def exC_s2_def exC_cfg_def cycle_kwh_alt Host_init_def feedback_def
      py_round_def round_half_even_def)

lemma exC_range: "[0..cycles exC_cfg - 1] = [0, 1]"
  by (simp add: exC_cfg_def upto_rec1)

subsection \<open>Example D\<close>

lemma exD_init: "init_sim (gen_64 7) exD_cfg = Inr exD_s0"
  by (simp add: exD_cfg_def exD_s0_def gen_64_def init_sim_def uniform_def
      bounded_def upto_rec1)

lemma exD_usage:
  "update_usage (gen_64 7) 0 (draws exD_s0) (vms exD_s0) =
     Inr ([exD_vm\<lparr>pred_cpu := 345 / 32, pred_mem := 69 / 8\<rparr>], 2)"
  by (simp add: exD_s0_def gen_64_def exD_vm_def observe_def synth_drift_def uniform_def
      bounded_def VM_init_def)

lemma exD_predict:
  "predict_all (alpha (cfg exD_s0)) [exD_vm\<lparr>pred_cpu := 345 / 32, pred_mem := 69 / 8\<rparr>] = Inr [exD_vm]"
  by (simp add: exD_s0_def exD_cfg_def exD_vm_def predict_all_def predict_ema_def)

lemma exD_planner:
  "planner (cfg exD_s0) (hosts exD_s0) [exD_vm] = Inr ([], [(0, 981 / 160)], [(0, 981 / 200)])"
  by (simp add: planner_def exD_s0_def exD_cfg_def exD_vm_def candidates_def plan_step_def
      active_hosts_def loads_predicted_def on_dict_def dict_of_def add_load_def Host_init_def)

lemma exD_execute: "execute [] [exD_vm] = Inr [exD_vm]"
  by simp

lemma exD_shutdown: "shutdown (hosts exD_s0) [exD_vm] = [Host_init 0]"
  by (simp add: exD_s0_def shutdown_eq exD_vm_def Host_init_def)

lemma exD_breach: "breach (cfg exD_s0) [Host_init 0] [exD_vm] = False"
  by (simp add: exD_s0_def breach_iff host_load_def exD_cfg_def exD_vm_def Host_init_def)

lemma exD_cycle: "cycle (gen_64 7) exD_s0 0 = Inr exD_s1"
  unfolding cycleI[OF exD_usage exD_predict exD_planner exD_execute exD_shutdown exD_breach]
  by (simp add: exD_s0_def exD_s1_def exD_cfg_def cycle_kwh_alt Host_init_def feedback_def)

lemma exD_utils:
  "utils_of (dict_of cpu_cap (active_hosts (hosts exD_s1)))
     (fst (loads_predicted (active_hosts (hosts exD_s1)) (vms exD_s1))) = Inr [981 / 16000]"
  by (simp add: exD_s1_def active_hosts_def loads_predicted_def on_dict_def dict_of_def add_load_def
      exD_vm_def Host_init_def)

lemma exD_p95: "util_p95 [981 / 16000] = Inr (981 / 16000)"
  by (simp add: util_p95_def)

lemma exD_round: "py_round (981 / 16000) 4 = 613 / 10000"
proof -
  have "\<lfloor>4905 / 8 :: real\<rfloor> = 613"
    by linarith
  then show ?thesis
    by (simp add: py_round_def round_half_even_def)
qed

lemma exD_summary: "summary exD_s1 = Inr exD_summary"
  unfolding summaryI[OF exD_utils exD_p95]
  by (simp add: exD_s1_def off_hosts_def Host_init_def mean_def exD_summary_def exD_cfg_def exD_round)
     (simp add: py_round_def round_half_even_def)

lemma exD_simulate: "simulate gen_64 exD_cfg = Inr (exD_summary, exD_cfg)"
proof -
  have s: "seed exD_cfg = 7" "[0..cycles exD_cfg - 1] = [0]"
    by (simp_all add: exD_cfg_def upto_rec1)
  have "simulate gen_64 exD_cfg = Inr (exD_summary, cfg exD_s1)"
    by (rule simulateI[where ?s0.0 = exD_s0]) (simp_all add: s exD_init exD_cycle exD_summary)
  then show ?thesis by (simp add: exD_s1_def)
qed

section \<open>Claims\<close>

text \<open>
  C1 (monotonic tightening), as the code has it. The feedback step is
  \<open>max 0.70 (round (target_util - 0.02) 3)\<close>. Started below 0.70, a breach raises
  \<open>target_util\<close> to 0.70: in example C it is 0.5 after cycle 0, below the floor, and 0.7
  after cycle 1. Lemma \<open>crowded_raises\<close> shows the rise from 0.5 to 0.7 for one host with
  twenty VMs under any non-negative random draws.
\<close>

theorem target_util_counterexample:
  "init_sim (gen_rise 7) exC_cfg = Inr exC_s0 \<and>
   run_cycles (gen_rise 7) exC_s0 [0] = Inr exC_s1 \<and>
   run_cycles (gen_rise 7) exC_s0 [0, 1] = Inr exC_s2 \<and>
   [0..cycles exC_cfg - 1] = [0, 1] \<and>
   target_util (cfg exC_s1) = 1 / 2 \<and> target_util (cfg exC_s2) = 7 / 10 \<and>
   \<not> (target_util (cfg exC_s2) \<le> target_util (cfg exC_s1)) \<and>
   \<not> (7 / 10 \<le> target_util (cfg exC_s1))"
  by (simp add: exC_init exC_cycle0 exC_cycle1 exC_range) (simp add: exC_s1_def exC_s2_def exC_cfg_def)

text \<open>
  C1, amended: in a run whose configured \<open>target_util\<close> is at least 0.70, the value after a
  cycle is at most the value before it and at least 0.70, and a cycle either leaves the
  configuration as it is or sets \<open>target_util\<close> to \<open>max 0.70 (round (target_util - 0.02) 3)\<close>.
\<close>

theorem target_util_tightens:
  assumes "7 / 10 \<le> target_util c" and "init_sim rnd c = Inr s0"
    and "run_cycles rnd s0 ts = Inr s1" and "cycle rnd s1 t = Inr s2"
  shows "target_util (cfg s2) \<le> target_util (cfg s1) \<and> 7 / 10 \<le> target_util (cfg s2) \<and>
         7 / 10 \<le> target_util (cfg s1) \<and>
         (cfg s2 = cfg s1 \<or>
          cfg s2 = (cfg s1)\<lparr>target_util := max 0.70 (py_round (target_util (cfg s1) - 0.02) 3)\<rparr>)"
proof -
  have f: "7 / 10 \<le> target_util (cfg s1)"
    using floor_run[OF assms(1-3)] .
  from assms(4) obtain b where b: "cfg s2 = feedback b (cfg s1)"
    by (elim cycleE) blast
  from feedback_down[OF f, of b] f b show ?thesis
    by (auto simp: feedback_def)
qed

theorem target_util_tightens_witness:
  "7 / 10 \<le> target_util (exB_cfg (4 / 5)) \<and>
   init_sim (gen_half 7) (exB_cfg (4 / 5)) = Inr (exB_s0 (4 / 5)) \<and>
   run_cycles (gen_half 7) (exB_s0 (4 / 5)) [] = Inr (exB_s0 (4 / 5)) \<and>
   cycle (gen_half 7) (exB_s0 (4 / 5)) 0 = Inr (exB_s1 (39 / 50)) \<and>
   target_util (cfg (exB_s1 (39 / 50))) \<le> target_util (cfg (exB_s0 (4 / 5))) \<and>
   7 / 10 \<le> target_util (cfg (exB_s1 (39 / 50))) \<and>
   target_util (cfg (exB_s1 (39 / 50))) = 39 / 50"
proof -
  have f: "7 / 10 \<le> target_util (exB_cfg (4 / 5))"
    by (simp add: exB_cfg_def)
  have r: "run_cycles (gen_half 7) (exB_s0 (4 / 5)) [] = Inr (exB_s0 (4 / 5))"
    by simp
  have v: "target_util (cfg (exB_s1 (39 / 50))) = 39 / 50"
    by (simp add: exB_s1_def exB_cfg_def)
  from target_util_tightens[OF f exB_init r exB_cycle_80] f exB_init r exB_cycle_80 v
  show ?thesis by blast
qed

text \<open>
  C2 (determinism and independence of runs), as the code has it. \<open>simulate\<close> assigns the
  \<open>target_util\<close> of the feedback step to the configuration object it was given. In example B the first run
  leaves 0.78 where 0.80 was configured, and a second run on the same object reports
  \<open>final_target_util = 0.76\<close> where the first reported 0.78. \<open>run_twice\<close> is two calls
  in sequence on one configuration object. Lemma \<open>crowded_rerun\<close> shows the same outcome
  for one host with twenty VMs under any non-negative random draws.
\<close>

theorem rerun_counterexample:
  "simulate gen_half (exB_cfg (4 / 5)) = Inr (exB_summary (39 / 50), exB_cfg (39 / 50)) \<and>
   simulate gen_half (exB_cfg (39 / 50)) = Inr (exB_summary (19 / 25), exB_cfg (19 / 25)) \<and>
   run_twice gen_half (exB_cfg (4 / 5)) = Inr (exB_summary (39 / 50), exB_summary (19 / 25)) \<and>
   exB_cfg (39 / 50) \<noteq> exB_cfg (4 / 5) \<and>
   final_target_util (exB_summary (39 / 50)) = 39 / 50 \<and>
   final_target_util (exB_summary (19 / 25)) = 19 / 25 \<and>
   exB_summary (19 / 25) \<noteq> exB_summary (39 / 50)"
proof -
  have "run_twice gen_half (exB_cfg (4 / 5)) = Inr (exB_summary (39 / 50), exB_summary (19 / 25))"
    by (simp add: run_twice_def exB_simulate_80 exB_simulate_78)
  moreover have "exB_cfg (39 / 50) \<noteq> exB_cfg (4 / 5)"
    by (simp add: exB_cfg_def)
  moreover have "final_target_util (exB_summary (39 / 50)) = 39 / 50"
    "final_target_util (exB_summary (19 / 25)) = 19 / 25"
    "exB_summary (19 / 25) \<noteq> exB_summary (39 / 50)"
    by (simp_all add: exB_summary_def)
  ultimately show ?thesis
    using exB_simulate_80 exB_simulate_78 by blast
qed

text \<open>
  C2, amended. The summary and the configuration left behind are a function of the
  configuration values at the call and of the random stream of the seed. After the call the
  configuration differs from the one passed in at most in \<open>target_util\<close>, whose rounding is the
  reported \<open>final_target_util\<close>; when the run reports no breach the configuration is unchanged
  and a second run on it returns the same summary.
\<close>

theorem run_leaves_target_util:
  assumes "simulate gen c = Inr (r, c')"
  shows "c' = c\<lparr>target_util := target_util c'\<rparr> \<and>
         final_target_util r = py_round (target_util c') 3 \<and>
         (hi_watermark_breaches r = 0 \<longrightarrow> c' = c \<and> simulate gen c' = Inr (r, c'))"
proof -
  from assms obtain s0 s where s: "init_sim (gen (seed c)) c = Inr s0"
    "run_cycles (gen (seed c)) s0 [0..cycles c - 1] = Inr s" "summary s = Inr r" "c' = cfg s"
    by (rule simulateE)
  from cfg_inv_run[OF s(1,2)] summary_fields(1,2)[OF s(3)] s(4) assms show ?thesis
    by (auto simp: cfg_inv_def)
qed

theorem run_leaves_target_util_witness:
  "simulate gen_half exA_cfg = Inr (exA_summary, exA_cfg) \<and>
   hi_watermark_breaches exA_summary = 0 \<and>
   exA_cfg = exA_cfg\<lparr>target_util := target_util exA_cfg\<rparr> \<and>
   final_target_util exA_summary = py_round (target_util exA_cfg) 3"
proof -
  have b: "hi_watermark_breaches exA_summary = 0"
    by (simp add: exA_summary_def)
  from run_leaves_target_util[OF exA_simulate] b exA_simulate show ?thesis
    by blast
qed

text \<open>
  C3 (rounding of the summary), evaluated on example D. With fewer than 20 ON hosts
  \<open>util_p95_final\<close> is the plain maximum of the utilizations: here 0.0613125, which is not
  its own rounding to 4 places (0.0613), while \<open>util_mean_final\<close> of the same summary is 0.0613.
\<close>

theorem p95_fallback_unrounded:
  "simulate gen_64 exD_cfg = Inr (exD_summary, exD_cfg) \<and>
   util_p95_final exD_summary = 981 / 16000 \<and>
   py_round (util_p95_final exD_summary) 4 = 613 / 10000 \<and>
   py_round (util_p95_final exD_summary) 4 \<noteq> util_p95_final exD_summary \<and>
   util_mean_final exD_summary = 613 / 10000"
  using exD_simulate by (simp add: exD_summary_def exD_round)

text \<open>
  C4 (capacity respect at planning time). At any point of the planner's pass over the sorted
  candidates, with the tallies seeded by \<open>loads_predicted\<close> on the ON hosts and updated by
  the moves accepted so far: if the step for the next candidate accepts a move, the move goes
  to an ON host, and right after acceptance that host's CPU and memory tallies are at most
  \<open>cpu_cap * target_util\<close> and \<open>mem_cap * target_util\<close>. The seed of an ON host is the sum of
  the predicted loads of the VMs assigned to it, and the rest of the pass continues from the
  updated tallies.
\<close>

theorem capacity_respected:
  assumes "candidates c vs = pre @ vm # post"
    and "plan_loop (target_util c) (active_hosts hs) pre ([], loads_predicted (active_hosts hs) vs) = Inr (p, cl, ml)"
    and "plan_step (target_util c) (active_hosts hs) (p, cl, ml) vm = Inr (p', cl', ml')"
    and "p' \<noteq> p"
  shows "planner c hs vs = plan_loop (target_util c) (active_hosts hs) post (p', cl', ml') \<and>
         (\<forall>h\<in>set (active_hosts hs).
            map_of (fst (loads_predicted (active_hosts hs) vs)) (h_id h) = Some (host_load vs (h_id h)) \<and>
            map_of (snd (loads_predicted (active_hosts hs) vs)) (h_id h) = Some (host_load_mem vs (h_id h))) \<and>
         (\<exists>dst\<in>set (active_hosts hs).
            p' = p @ [(v_id vm, host_id vm, h_id dst)] \<and>
            (\<exists>x y. map_of cl' (h_id dst) = Some x \<and> x \<le> cpu_cap dst * target_util c \<and>
                   map_of ml' (h_id dst) = Some y \<and> y \<le> mem_cap dst * target_util c))"
proof (intro conjI)
  show "planner c hs vs = plan_loop (target_util c) (active_hosts hs) post (p', cl', ml')"
    using assms(1-3) by (simp add: planner_def Let_def plan_loop_append)
next
  show "\<forall>h\<in>set (active_hosts hs).
          map_of (fst (loads_predicted (active_hosts hs) vs)) (h_id h) = Some (host_load vs (h_id h)) \<and>
          map_of (snd (loads_predicted (active_hosts hs) vs)) (h_id h) = Some (host_load_mem vs (h_id h))"
    by (simp add: cpu_loads_lookup mem_loads_lookup)
next
  from plan_step_cases[OF assms(3)] assms(4)
  obtain dst cx m where d: "dst \<in> set (active_hosts hs)"
    "p' = p @ [(v_id vm, host_id vm, h_id dst)]"
    "cl' = AList.map_entry (h_id dst) (\<lambda>x. x + pred_cpu vm) cl"
    "ml' = AList.map_entry (h_id dst) (\<lambda>x. x + pred_mem vm) ml"
    "map_of cl (h_id dst) = Some cx" "cx + pred_cpu vm \<le> cpu_cap dst * target_util c"
    "map_of ml (h_id dst) = Some m" "m + pred_mem vm \<le> mem_cap dst * target_util c"
    by blast
  then show "\<exists>dst\<in>set (active_hosts hs).
            p' = p @ [(v_id vm, host_id vm, h_id dst)] \<and>
            (\<exists>x y. map_of cl' (h_id dst) = Some x \<and> x \<le> cpu_cap dst * target_util c \<and>
                   map_of ml' (h_id dst) = Some y \<and> y \<le> mem_cap dst * target_util c)"
    by (intro bexI[of _ dst]) (simp_all add: map_of_map_entry)
qed

theorem capacity_respected_witness:
  "candidates exA_cfg [exA_vm 0 0, exA_vm 1 1] = [exA_vm 0 0] @ exA_vm 1 1 # [] \<and>
   plan_step (target_util exA_cfg) (active_hosts exA_hosts)
     ([], [(0, 35), (1, 35)], [(0, 28), (1, 28)]) (exA_vm 1 1) =
     Inr ([(1, 1, 0)], [(0, 70), (1, 35)], [(0, 56), (1, 28)]) \<and>
   Host_init 0 \<in> set (active_hosts exA_hosts) \<and>
   map_of (fst (loads_predicted (active_hosts exA_hosts) [exA_vm 0 0, exA_vm 1 1])) (h_id (Host_init 0)) =
     Some (host_load [exA_vm 0 0, exA_vm 1 1] (h_id (Host_init 0))) \<and>
   host_load [exA_vm 0 0, exA_vm 1 1] (h_id (Host_init 0)) = 35 \<and>
   (\<exists>dst\<in>set (active_hosts exA_hosts).
      [(1, 1, 0)] = [] @ [(v_id (exA_vm 1 1), host_id (exA_vm 1 1), h_id dst)] \<and>
      (\<exists>x y. map_of [(0, 70), (1, 35)] (h_id dst) = Some x \<and> x \<le> cpu_cap dst * target_util exA_cfg \<and>
             map_of [(0, 56), (1, 28)] (h_id dst) = Some y \<and> y \<le> mem_cap dst * target_util exA_cfg))"
proof -
  have 1: "candidates exA_cfg [exA_vm 0 0, exA_vm 1 1] = [exA_vm 0 0] @ exA_vm 1 1 # []"
    by (simp add: exA_candidates)
  have 2: "plan_loop (target_util exA_cfg) (active_hosts exA_hosts) [exA_vm 0 0]
             ([], loads_predicted (active_hosts exA_hosts) [exA_vm 0 0, exA_vm 1 1]) =
           Inr ([], [(0, 35), (1, 35)], [(0, 28), (1, 28)])"
    by (simp add: exA_active exA_loads exA_step0)
  have 3: "plan_step (target_util exA_cfg) (active_hosts exA_hosts)
             ([], [(0, 35), (1, 35)], [(0, 28), (1, 28)]) (exA_vm 1 1) =
           Inr ([(1, 1, 0)], [(0, 70), (1, 35)], [(0, 56), (1, 28)])"
    by (simp add: exA_active exA_step1)
  have 4: "[(1 :: int, 1 :: int, 0 :: int)] \<noteq> []"
    by simp
  have 5: "Host_init 0 \<in> set (active_hosts exA_hosts)"
    unfolding exA_active by (simp add: exA_hosts_def)
  have 6: "host_load [exA_vm 0 0, exA_vm 1 1] (h_id (Host_init 0)) = 35"
    by (simp add: host_load_def exA_vm_def Host_init_def)
  from capacity_respected[OF 1 2 3 4] 1 3 5 6 show ?thesis
    by blast
qed

text \<open>
  C5 (shutdown irreversibility). A cycle keeps the host list in place and changes a host only
  by setting its status to OFF, which it does exactly for the hosts that are ON and have no VM
  assigned after the cycle's migrations. A host that is OFF after a cycle is OFF after any
  number of further cycles.
\<close>

theorem shutdown_irreversible:
  assumes "cycle rnd s t = Inr s1" and "run_cycles rnd s1 ts = Inr s2"
  shows "length (hosts s1) = length (hosts s) \<and> length (hosts s2) = length (hosts s) \<and>
         (\<forall>i<length (hosts s).
            hosts s1 ! i =
              (if status (hosts s ! i) = ''ON'' \<and> (\<forall>vm\<in>set (vms s1). host_id vm \<noteq> h_id (hosts s ! i))
               then (hosts s ! i)\<lparr>status := ''OFF''\<rparr> else hosts s ! i) \<and>
            (status (hosts s1 ! i) = ''OFF'' \<longrightarrow> status (hosts s2 ! i) = ''OFF''))"
  using cycle_hosts_length[OF assms(1)] cycle_hosts_nth[OF assms(1)] run_off_stays[OF assms(2)]
  by simp

theorem shutdown_irreversible_witness:
  "cycle (gen_half 7) exA_s0 0 = Inr exA_s1 \<and> run_cycles (gen_half 7) exA_s1 [24] = Inr exA_s2 \<and>
   (1 :: nat) < length (hosts exA_s0) \<and>
   status (hosts exA_s0 ! 1) = ''ON'' \<and>
   list_all (\<lambda>vm. host_id vm \<noteq> h_id (hosts exA_s0 ! 1)) (vms exA_s1) \<and>
   hosts exA_s1 ! 1 = (hosts exA_s0 ! 1)\<lparr>status := ''OFF''\<rparr> \<and>
   status (hosts exA_s1 ! 1) = ''OFF'' \<and> status (hosts exA_s2 ! 1) = ''OFF'' \<and>
   hosts exA_s1 ! 0 = hosts exA_s0 ! 0"
proof -
  note t = shutdown_irreversible[OF exA_cycle exA2_run]
  have l: "(1 :: nat) < length (hosts exA_s0)" "(0 :: nat) < length (hosts exA_s0)"
    by (simp_all add: exA_s0_def exA_hosts_def)
  have on: "status (hosts exA_s0 ! 1) = ''ON''"
    by (simp add: exA_s0_def exA_hosts_def Host_init_def)
  have none: "\<forall>vm\<in>set (vms exA_s1). host_id vm \<noteq> h_id (hosts exA_s0 ! 1)"
    by (simp add: exA_s0_def exA_s1_def exA_hosts_def exA_vm_def Host_init_def)
  have some: "\<not> (\<forall>vm\<in>set (vms exA_s1). host_id vm \<noteq> h_id (hosts exA_s0 ! 0))"
    by (simp add: exA_s0_def exA_s1_def exA_hosts_def exA_vm_def Host_init_def)
  from t l(1) on none have 1: "hosts exA_s1 ! 1 = (hosts exA_s0 ! 1)\<lparr>status := ''OFF''\<rparr>"
    by simp
  then have 2: "status (hosts exA_s1 ! 1) = ''OFF''"
    by simp
  with t l(1) have 3: "status (hosts exA_s2 ! 1) = ''OFF''"
    by blast
  from t l(2) some have 4: "hosts exA_s1 ! 0 = hosts exA_s0 ! 0"
    by simp
  from none have none': "list_all (\<lambda>vm. host_id vm \<noteq> h_id (hosts exA_s0 ! 1)) (vms exA_s1)"
    by (simp add: list_all_iff)
  from exA_cycle exA2_run l(1) on none' 1 2 3 4 show ?thesis
    by blast
qed

text \<open>
  C6 (breach counter). In every cycle of a run, the breach counter grows by one when some host
  that is ON after the shutdown step carries a predicted CPU load (the sum of \<open>pred_cpu\<close> of
  the VMs assigned to it) above \<open>hi_watermark * cpu_cap\<close>, however many such hosts there are, and
  stays as it is otherwise. In \<open>any_high_watermark\<close> an entry counts only when its host has a
  capacity in the table and that capacity is positive, so a missing or zero capacity never
  produces a breach.
\<close>

theorem breach_counter:
  assumes "init_sim rnd c = Inr s0" and "run_cycles rnd s0 ts = Inr s" and "cycle rnd s t = Inr s'"
  shows "total_breaches s' = total_breaches s +
           (if \<exists>h\<in>set (hosts s'). status h = ''ON'' \<and>
                  host_load (vms s') (h_id h) > hi_watermark (cfg s) * cpu_cap h
            then 1 else 0) \<and>
         (\<forall>cl on hw. any_high_watermark cl on hw \<longleftrightarrow>
           (\<exists>(hid, load)\<in>set cl. \<exists>cap. map_of (on_dict cpu_cap on) hid = Some cap \<and>
                                     0 < cap \<and> cap * hw < load))"
proof -
  have ok: "hosts_ok (hosts s')"
    using hosts_ok_cycle[OF hosts_ok_run[OF assms(1,2)] assms(3)] .
  then have caps: "\<And>h. h \<in> set (hosts s') \<Longrightarrow> cpu_cap h = 100"
    by (simp add: hosts_ok_def list_all_iff)
  from ok have "breach (cfg s) (hosts s') (vms s') \<longleftrightarrow>
      (\<exists>h\<in>set (hosts s'). status h = ''ON'' \<and> 0 < cpu_cap h \<and>
                       cpu_cap h * hi_watermark (cfg s) < host_load (vms s') (h_id h))"
    by (simp add: breach_iff hosts_ok_def)
  also have "\<dots> \<longleftrightarrow> (\<exists>h\<in>set (hosts s'). status h = ''ON'' \<and>
                  host_load (vms s') (h_id h) > hi_watermark (cfg s) * cpu_cap h)"
    using caps by (auto simp: mult.commute)
  finally have "total_breaches s' = total_breaches s +
           (if \<exists>h\<in>set (hosts s'). status h = ''ON'' \<and>
                  host_load (vms s') (h_id h) > hi_watermark (cfg s) * cpu_cap h
            then 1 else 0)"
    using assms(3) by (elim cycleE) simp
  then show ?thesis
    by (simp add: any_high_watermark_iff)
qed

theorem breach_counter_witness:
  "init_sim (gen_half 7) (exB_cfg (4 / 5)) = Inr (exB_s0 (4 / 5)) \<and>
   run_cycles (gen_half 7) (exB_s0 (4 / 5)) [] = Inr (exB_s0 (4 / 5)) \<and>
   cycle (gen_half 7) (exB_s0 (4 / 5)) 0 = Inr (exB_s1 (39 / 50)) \<and>
   total_breaches (exB_s1 (39 / 50)) = total_breaches (exB_s0 (4 / 5)) + 1 \<and>
   (\<exists>h\<in>set (hosts (exB_s1 (39 / 50))). status h = ''ON'' \<and>
      host_load (vms (exB_s1 (39 / 50))) (h_id h) > hi_watermark (cfg (exB_s0 (4 / 5))) * cpu_cap h) \<and>
   any_high_watermark [(0, 105)] [Host_init 0] (9 / 10) \<and>
   \<not> any_high_watermark [(5, 1000)] [Host_init 0] (9 / 10) \<and>
   \<not> any_high_watermark [(0, 1000)] [(Host_init 0)\<lparr>cpu_cap := 0\<rparr>] (9 / 10)"
proof -
  have r: "run_cycles (gen_half 7) (exB_s0 (4 / 5)) [] = Inr (exB_s0 (4 / 5))"
    by simp
  note b = breach_counter[OF exB_init r exB_cycle_80]
  have e: "\<exists>h\<in>set (hosts (exB_s1 (39 / 50))). status h = ''ON'' \<and>
      host_load (vms (exB_s1 (39 / 50))) (h_id h) > hi_watermark (cfg (exB_s0 (4 / 5))) * cpu_cap h"
    by (simp add: exB_s1_def exB_s0_def exB_cfg_def exB_vms_def exA_vm_def host_load_def Host_init_def)
  from b e have 1: "total_breaches (exB_s1 (39 / 50)) = total_breaches (exB_s0 (4 / 5)) + 1"
    by simp
  from b have a: "\<And>cl on hw. any_high_watermark cl on hw \<longleftrightarrow>
           (\<exists>(hid, load)\<in>set cl. \<exists>cap. map_of (on_dict cpu_cap on) hid = Some cap \<and>
                                     0 < cap \<and> cap * hw < load)"
    by blast
  have 2: "any_high_watermark [(0, 105)] [Host_init 0] (9 / 10)"
    unfolding a by (simp add: on_dict_def dict_of_def Host_init_def)
  have 3: "\<not> any_high_watermark [(5, 1000)] [Host_init 0] (9 / 10)"
    unfolding a by (simp add: on_dict_def dict_of_def Host_init_def)
  have 4: "\<not> any_high_watermark [(0, 1000)] [(Host_init 0)\<lparr>cpu_cap := 0\<rparr>] (9 / 10)"
    unfolding a by (simp add: on_dict_def dict_of_def Host_init_def)
  from exB_init r exB_cycle_80 1 e 2 3 4 show ?thesis
    by blast
qed

text \<open>
  C7 (energy accounting). A cycle adds to the running energy total the idle power of the hosts
  that are OFF after the cycle's shutdown step, times \<open>dt_hours\<close>, divided by 1000. A host
  that is not OFF contributes 0.
\<close>

theorem energy_per_cycle:
  assumes "cycle rnd s t = Inr s'"
  shows "total_kwh s' = total_kwh s +
           (\<Sum>h\<leftarrow>hosts s'. if status h = ''OFF'' then power_idle_watts h else 0) * dt_hours (cfg s) / 1000"
  using assms by (elim cycleE) (simp add: cycle_kwh_alt)

theorem energy_per_cycle_witness:
  "cycle (gen_half 7) exA_s0 0 = Inr exA_s1 \<and> total_kwh exA_s1 = 0 + (0 + 120) * 1 / 1000"
  using energy_per_cycle[OF exA_cycle] exA_cycle
  by (simp add: exA_s0_def exA_s1_def exA_cfg_def Host_init_def)

text \<open>
  C8 (no-op suppression). Every tuple \<open>(vm, src, dst)\<close> of a plan returned by the planner comes
  from a VM of the list the planner was given, with \<open>src\<close> that VM's current host, and its
  destination differs from the source.
\<close>

theorem no_noop_moves:
  assumes "planner c hs vs = Inr (p, cl, ml)" and "(vid, src, dst) \<in> set p"
  shows "src \<noteq> dst \<and> (\<exists>vm\<in>set vs. v_id vm = vid \<and> host_id vm = src \<and> dst \<noteq> host_id vm)"
proof -
  from planner_moves[OF assms(1)] assms(2)
  have "move_ok (active_hosts hs) (candidates c vs) (vid, src, dst)"
    by (simp add: list_all_iff)
  then show ?thesis
    by (auto simp: move_ok_def list_ex_iff set_candidates)
qed

theorem no_noop_moves_witness:
  "planner (cfg exA_s0) (hosts exA_s0) [exA_vm 0 0, exA_vm 1 1] =
     Inr ([(1, 1, 0)], [(0, 70), (1, 35)], [(0, 56), (1, 28)]) \<and>
   (1, 1, 0) \<in> set [(1 :: int, 1 :: int, 0 :: int)] \<and> (1 :: int) \<noteq> 0 \<and>
   (\<exists>vm\<in>set [exA_vm 0 0, exA_vm 1 1]. v_id vm = 1 \<and> host_id vm = 1 \<and> 0 \<noteq> host_id vm)"
  using no_noop_moves[OF exA_planner, of 1 1 0] exA_planner by simp

text \<open>
  C9 (predictions are fresh). In every cycle the planner and the migration step work on the
  VM list produced by \<open>update_usage\<close> followed by \<open>predict_all\<close>; in that list every VM has
  \<open>pred_cpu = alpha * latest + (1 - alpha) * previous\<close> over the last two CPU samples and the
  same for memory, with the one \<open>alpha\<close> of the configuration. The cycle does not depend on
  the predictions it starts with: replacing them by any other values gives the same result.
\<close>

theorem predictions_fresh:
  assumes "cycle rnd s t = Inr s'"
  shows "\<exists>vs1 k vs2 p cl ml.
           update_usage rnd t (draws s) (vms s) = Inr (vs1, k) \<and>
           predict_all (alpha (cfg s)) vs1 = Inr vs2 \<and>
           list_all (ema_ok (alpha (cfg s))) vs2 \<and>
           planner (cfg s) (hosts s) vs2 = Inr (p, cl, ml) \<and>
           execute p vs2 = Inr (vms s') \<and>
           (\<forall>vs'. list_all2 same_but_pred vs' (vms s) \<longrightarrow> cycle rnd (s\<lparr>vms := vs'\<rparr>) t = Inr s')"
proof -
  from assms obtain vs1 k vs2 p cl ml where
    1: "update_usage rnd t (draws s) (vms s) = Inr (vs1, k)"
    and 2: "predict_all (alpha (cfg s)) vs1 = Inr vs2"
    and 3: "planner (cfg s) (hosts s) vs2 = Inr (p, cl, ml)"
    and 4: "execute p vs2 = Inr (vms s')"
    by (elim cycleE)
  from predict_all_props(3)[OF 2] have "list_all (ema_ok (alpha (cfg s))) vs2" .
  with 1 2 3 4 assms show ?thesis
    by (auto simp: cycle_same)
qed

theorem predictions_fresh_witness:
  "cycle (gen_half 7) exA_s0 0 = Inr exA_s1 \<and>
   list_all2 same_but_pred
     [(VM_init 0 0 35 28)\<lparr>pred_cpu := 99, pred_mem := 1\<rparr>, (VM_init 1 1 35 28)\<lparr>pred_cpu := 0, pred_mem := 77\<rparr>]
     (vms exA_s0) \<and>
   cycle (gen_half 7)
     (exA_s0\<lparr>vms := [(VM_init 0 0 35 28)\<lparr>pred_cpu := 99, pred_mem := 1\<rparr>,
                     (VM_init 1 1 35 28)\<lparr>pred_cpu := 0, pred_mem := 77\<rparr>]\<rparr>) 0 = Inr exA_s1 \<and>
   list_all (ema_ok (alpha (cfg exA_s0))) [exA_vm 0 0, exA_vm 1 1]"
proof -
  have s: "list_all2 same_but_pred
     [(VM_init 0 0 35 28)\<lparr>pred_cpu := 99, pred_mem := 1\<rparr>, (VM_init 1 1 35 28)\<lparr>pred_cpu := 0, pred_mem := 77\<rparr>]
     (vms exA_s0)"
    by (simp add: exA_s0_def same_but_pred_def VM_init_def)
  from predictions_fresh[OF exA_cycle] obtain vs1 k vs2 p cl ml where
    1: "update_usage (gen_half 7) 0 (draws exA_s0) (vms exA_s0) = Inr (vs1, k)"
    and 2: "predict_all (alpha (cfg exA_s0)) vs1 = Inr vs2"
    and 3: "list_all (ema_ok (alpha (cfg exA_s0))) vs2"
    and 4: "\<forall>vs'. list_all2 same_but_pred vs' (vms exA_s0) \<longrightarrow>
                 cycle (gen_half 7) (exA_s0\<lparr>vms := vs'\<rparr>) 0 = Inr exA_s1"
    by blast
  from 1 have "vs1 = [exA_vm 0 0, exA_vm 1 1]"
    by (simp add: exA_usage)
  with 2 have "vs2 = [exA_vm 0 0, exA_vm 1 1]"
    by (simp add: exA_predict)
  with 3 4 s exA_cycle show ?thesis
    by blast
qed

text \<open>
  C10 (VMs sit on ON hosts). In every state of a run (after initialisation and after every
  cycle), any host whose id a VM's \<open>host_id\<close> names is ON, so no VM references an OFF host;
  when the configured host count is not negative, such a host exists; and after the migrations
  of the next cycle, before its shutdown step, the hosts named by the VMs are ON as well.
\<close>

theorem vm_hosts_on:
  assumes "init_sim rnd c = Inr s0" and "run_cycles rnd s0 ts = Inr s"
  shows "(\<forall>vm\<in>set (vms s). \<forall>h\<in>set (hosts s). h_id h = host_id vm \<longrightarrow> status h = ''ON'') \<and>
         (0 \<le> n_hosts c \<longrightarrow>
            (\<forall>vm\<in>set (vms s). \<exists>h\<in>set (hosts s). h_id h = host_id vm \<and> status h = ''ON'')) \<and>
         (\<forall>t s'. cycle rnd s t = Inr s' \<longrightarrow>
            (\<forall>vm\<in>set (vms s'). \<forall>h\<in>set (hosts s). h_id h = host_id vm \<longrightarrow> status h = ''ON''))"
proof (intro conjI)
  from no_off_ref_run[OF assms] have ok: "distinct (map h_id (hosts s))" and n: "no_off_ref s"
    by (simp_all add: hosts_ok_def)
  from n show a: "\<forall>vm\<in>set (vms s). \<forall>h\<in>set (hosts s). h_id h = host_id vm \<longrightarrow> status h = ''ON''"
    by (simp add: no_off_ref_def)
  show "0 \<le> n_hosts c \<longrightarrow>
          (\<forall>vm\<in>set (vms s). \<exists>h\<in>set (hosts s). h_id h = host_id vm \<and> status h = ''ON'')"
  proof (intro impI ballI)
    fix vm
    assume "0 \<le> n_hosts c" and vm: "vm \<in> set (vms s)"
    from host_exists_run[OF assms(1) this(1) assms(2)] vm
    obtain h where "h \<in> set (hosts s)" "h_id h = host_id vm"
      by (auto simp: host_exists_def)
    with a vm show "\<exists>h\<in>set (hosts s). h_id h = host_id vm \<and> status h = ''ON''" by blast
  qed
  show "\<forall>t s'. cycle rnd s t = Inr s' \<longrightarrow>
          (\<forall>vm\<in>set (vms s'). \<forall>h\<in>set (hosts s). h_id h = host_id vm \<longrightarrow> status h = ''ON'')"
    using cycle_migrated_on[OF n ok] by blast
qed

theorem vm_hosts_on_witness:
  "init_sim (gen_half 7) exA_cfg = Inr exA_s0 \<and> run_cycles (gen_half 7) exA_s0 [0] = Inr exA_s1 \<and>
   cycle (gen_half 7) exA_s1 24 = Inr exA_s2 \<and>
   exA_vm 1 0 \<in> set (vms exA_s1) \<and> exA_vm4 1 \<in> set (vms exA_s2) \<and>
   0 \<le> n_hosts exA_cfg \<and> Host_init 0 \<in> set (hosts exA_s1) \<and>
   h_id (Host_init 0) = host_id (exA_vm 1 0) \<and> h_id (Host_init 0) = host_id (exA_vm4 1) \<and>
   status (Host_init 0) = ''ON'' \<and>
   (\<exists>h\<in>set (hosts exA_s1). h_id h = host_id (exA_vm 1 0) \<and> status h = ''ON'')"
proof -
  note t = vm_hosts_on[OF exA_init exA_run]
  have v: "exA_vm 1 0 \<in> set (vms exA_s1)" "exA_vm4 1 \<in> set (vms exA_s2)"
    by (simp_all add: exA_s1_def exA_s2_def)
  have n: "0 \<le> n_hosts exA_cfg"
    by (simp add: exA_cfg_def)
  have h: "Host_init 0 \<in> set (hosts exA_s1)" "h_id (Host_init 0) = host_id (exA_vm 1 0)"
    "h_id (Host_init 0) = host_id (exA_vm4 1)"
    by (simp_all add: exA_s1_def exA_vm_def exA_vm4_def Host_init_def)
  from t v(1) h(1,2) have 1: "status (Host_init 0) = ''ON''"
    by blast
  from t exA2_cycle v(2) h(1,3) have 2: "status (Host_init 0) = ''ON''"
    by blast
  from t n v(1) have 3: "\<exists>h\<in>set (hosts exA_s1). h_id h = host_id (exA_vm 1 0) \<and> status h = ''ON''"
    by blast
  from exA_init exA_run exA2_cycle v n h 1 3 show ?thesis
    by blast
qed

end
